theory Spec2Isabelle
  imports Main "HOL-Library.Sublist"
begin

section \<open>JavaScript strings\<close>

text \<open>
  A JavaScript string is a sequence of UTF-16 code units. A code unit is modelled by its
  number; every string of the program is a list of numbers below 65536, and the functions
  below treat any larger number as an ordinary character (no space, no letter, no digit).
  \<open>js\<close> writes an ASCII literal of the source.
\<close>

type_synonym jschar = nat
type_synonym jsstring = "jschar list"

definition js :: "string \<Rightarrow> jsstring" where
  "js s = map of_char s"

text \<open>
  The characters matched by \<open>\s\<close> in a regular expression and removed by
  \<open>String.prototype.trim\<close>: WhiteSpace and LineTerminator of ECMA-262 (tab, line feed,
  vertical tab, form feed, carriage return, space, no-break space, U+1680, U+2000 to U+200A,
  U+2028, U+2029, U+202F, U+205F, U+3000, U+FEFF).
\<close>

definition isSpace :: "jschar \<Rightarrow> bool" where
  "isSpace c = ((9 \<le> c \<and> c \<le> 13) \<or> c = 32 \<or> c = 160 \<or> c = 5760 \<or> (8192 \<le> c \<and> c \<le> 8202)
     \<or> c = 8232 \<or> c = 8233 \<or> c = 8239 \<or> c = 8287 \<or> c = 12288 \<or> c = 65279)"

text \<open>The word characters of \<open>\b\<close>: \<open>[A-Za-z0-9_]\<close>.\<close>

definition isWordChar :: "jschar \<Rightarrow> bool" where
  "isWordChar c = ((48 \<le> c \<and> c \<le> 57) \<or> (65 \<le> c \<and> c \<le> 90) \<or> c = 95 \<or> (97 \<le> c \<and> c \<le> 122))"

definition asciiUpper :: "jschar \<Rightarrow> jschar" where
  "asciiUpper c = (if 97 \<le> c \<and> c \<le> 122 then c - 32 else c)"

definition asciiLower :: "jschar \<Rightarrow> jschar" where
  "asciiLower c = (if 65 \<le> c \<and> c \<le> 90 then c + 32 else c)"

text \<open>
  A JavaScript value that is a string, \<open>null\<close> or \<open>undefined\<close> is a
  \<open>jsstring option\<close>. It is truthy when it is a non-empty string; \<open>a || b\<close> is
  \<open>jsOr a b\<close>.
\<close>

definition truthy :: "jsstring option \<Rightarrow> bool" where
  "truthy v = (case v of None \<Rightarrow> False | Some s \<Rightarrow> s \<noteq> [])"

definition jsOr :: "jsstring option \<Rightarrow> jsstring option \<Rightarrow> jsstring option" where
  "jsOr a b = (if truthy a then a else b)"

text \<open>\<open>s.trim()\<close>\<close>

definition trim :: "jsstring \<Rightarrow> jsstring" where
  "trim s = rev (dropWhile isSpace (rev (dropWhile isSpace s)))"

text \<open>\<open>s.split(sep)\<close> for a separator of one character; \<open>"".split(sep)\<close> is \<open>[""]\<close>.\<close>

fun split :: "jschar \<Rightarrow> jsstring \<Rightarrow> jsstring list" where
  "split sep [] = [[]]"
| "split sep (c # cs) =
     (if c = sep then [] # split sep cs
      else (case split sep cs of [] \<Rightarrow> [[c]] | w # ws \<Rightarrow> (c # w) # ws))"

text \<open>\<open>parts.join(sep)\<close>\<close>

fun join :: "jsstring \<Rightarrow> jsstring list \<Rightarrow> jsstring" where
  "join sep [] = []"
| "join sep [w] = w"
| "join sep (w # ws) = w @ sep @ join sep ws"

section \<open>Regular expressions\<close>

text \<open>
  The regular expressions of the source use literal characters, character classes under a
  greedy quantifier, sequence, alternation, one capture group, an optional non-capturing
  group, \<open>\b\<close>, \<open>^\<close> and \<open>$\<close> (never with the \<open>m\<close> flag). A class item is a
  character, a range or \<open>\s\<close>.
\<close>

datatype citem = CChar jschar | CRange jschar jschar | CSpace

datatype regex =
    RChars jsstring
  | RClass "citem list" nat "nat option"
  | RSeq regex regex
  | RAlt regex regex
  | RGroup regex
  | ROpt regex
  | RWordB
  | RBol
  | REol

fun rseq :: "regex list \<Rightarrow> regex" where
  "rseq [] = RChars []"
| "rseq [r] = r"
| "rseq (r # rs) = RSeq r (rseq rs)"

fun itemHas :: "citem \<Rightarrow> jschar \<Rightarrow> bool" where
  "itemHas (CChar a) c = (c = a)"
| "itemHas (CRange a b) c = (a \<le> c \<and> c \<le> b)"
| "itemHas CSpace c = isSpace c"

text \<open>
  With the \<open>i\<close> flag (and no \<open>u\<close> flag) two characters match when their canonical
  forms are equal. The patterns of the source that carry the flag are ASCII, and a
  character outside ASCII never has an ASCII canonical form, so the canonical form is the
  ASCII upper case here.
\<close>

definition chEq :: "bool \<Rightarrow> jschar \<Rightarrow> jschar \<Rightarrow> bool" where
  "chEq ic p c = (if ic then asciiUpper p = asciiUpper c else p = c)"

definition inClass :: "bool \<Rightarrow> citem list \<Rightarrow> jschar \<Rightarrow> bool" where
  "inClass ic items c =
     (if ic then (\<exists>i \<in> set items. itemHas i (asciiUpper c) \<or> itemHas i (asciiLower c))
      else (\<exists>i \<in> set items. itemHas i c))"

text \<open>
  The state of a match: the character before the current position (\<open>None\<close> at the start
  of the input), the input that remains, and what group 1 has captured. A matcher returns
  the states it can end in, in the order backtracking tries them; the first is the match.
\<close>

type_synonym mstate = "jschar option \<times> jsstring \<times> jsstring option"

fun matchChars :: "bool \<Rightarrow> jsstring \<Rightarrow> jschar option \<Rightarrow> jsstring \<Rightarrow> (jschar option \<times> jsstring) option" where
  "matchChars ic [] prev inp = Some (prev, inp)"
| "matchChars ic (p # ps) prev [] = None"
| "matchChars ic (p # ps) prev (c # cs) =
     (if chEq ic p c then matchChars ic ps (Some c) cs else None)"

text \<open>
  A class under \<open>{mn,mx}\<close> (\<open>mx = None\<close>: no upper bound; \<open>+\<close> is \<open>{1,}\<close>,
  \<open>*\<close> is \<open>{0,}\<close>): greedy, so one more character is tried before stopping.
\<close>

fun matchClass :: "(jschar \<Rightarrow> bool) \<Rightarrow> nat \<Rightarrow> nat option \<Rightarrow> jschar option \<Rightarrow> jsstring
    \<Rightarrow> (jschar option \<times> jsstring) list" where
  "matchClass P mn mx prev [] = (if mn = 0 then [(prev, [])] else [])"
| "matchClass P mn mx prev (c # cs) =
     (if P c \<and> mx \<noteq> Some 0
      then matchClass P (mn - 1) (map_option (\<lambda>k. k - 1) mx) (Some c) cs else [])
     @ (if mn = 0 then [(prev, c # cs)] else [])"

definition atWordBoundary :: "jschar option \<Rightarrow> jsstring \<Rightarrow> bool" where
  "atWordBoundary prev inp =
     ((case prev of None \<Rightarrow> False | Some c \<Rightarrow> isWordChar c)
       \<noteq> (case inp of [] \<Rightarrow> False | c # _ \<Rightarrow> isWordChar c))"

fun rmatch :: "bool \<Rightarrow> regex \<Rightarrow> mstate \<Rightarrow> mstate list" where
  "rmatch ic (RChars ps) (prev, inp, cap) =
     (case matchChars ic ps prev inp of None \<Rightarrow> [] | Some (p', r') \<Rightarrow> [(p', r', cap)])"
| "rmatch ic (RClass items mn mx) (prev, inp, cap) =
     map (\<lambda>(p', r'). (p', r', cap)) (matchClass (inClass ic items) mn mx prev inp)"
| "rmatch ic (RSeq a b) st = concat (map (rmatch ic b) (rmatch ic a st))"
| "rmatch ic (RAlt a b) st = rmatch ic a st @ rmatch ic b st"
| "rmatch ic (RGroup a) (prev, inp, cap) =
     map (\<lambda>(p', r', _). (p', r', Some (take (length inp - length r') inp)))
       (rmatch ic a (prev, inp, cap))"
| "rmatch ic (ROpt a) (prev, inp, cap) =
     filter (\<lambda>(p', r', c'). length r' \<noteq> length inp) (rmatch ic a (prev, inp, cap))
     @ [(prev, inp, cap)]"
| "rmatch ic RWordB (prev, inp, cap) =
     (if atWordBoundary prev inp then [(prev, inp, cap)] else [])"
| "rmatch ic RBol (prev, inp, cap) = (if prev = None then [(prev, inp, cap)] else [])"
| "rmatch ic REol (prev, inp, cap) = (if inp = [] then [(prev, inp, cap)] else [])"

text \<open>
  \<open>RegExp.prototype.exec\<close> from the position whose previous character is \<open>prev\<close>:
  the start positions are tried from left to right. The result is the text skipped before
  the match and the state the match ends in.
\<close>

fun execFrom :: "bool \<Rightarrow> regex \<Rightarrow> jschar option \<Rightarrow> jsstring \<Rightarrow> (jsstring \<times> mstate) option" where
  "execFrom ic r prev [] =
     (case rmatch ic r (prev, [], None) of st # _ \<Rightarrow> Some ([], st) | [] \<Rightarrow> None)"
| "execFrom ic r prev (c # cs) =
     (case rmatch ic r (prev, c # cs, None) of
        st # _ \<Rightarrow> Some ([], st)
      | [] \<Rightarrow> map_option (\<lambda>(sk, st). (c # sk, st)) (execFrom ic r (Some c) cs))"

text \<open>\<open>re.test(s)\<close>\<close>

definition regexTest :: "bool \<Rightarrow> regex \<Rightarrow> jsstring \<Rightarrow> bool" where
  "regexTest ic r s = (execFrom ic r None s \<noteq> None)"

text \<open>
  \<open>s.match(re)\<close> for \<open>re\<close> without the \<open>g\<close> flag: \<open>None\<close> is \<open>null\<close>,
  \<open>Some m1\<close> is a match whose element 1 (group 1) is \<open>m1\<close>.
\<close>

definition matchGroup1 :: "bool \<Rightarrow> regex \<Rightarrow> jsstring \<Rightarrow> jsstring option option" where
  "matchGroup1 ic r s = map_option (\<lambda>(sk, (p', r', cap)). cap) (execFrom ic r None s)"

text \<open>\<open>s.replace(re, rep)\<close> for \<open>re\<close> without the \<open>g\<close> flag and \<open>rep\<close> without \<open>$\<close>.\<close>

definition replaceFirst :: "bool \<Rightarrow> regex \<Rightarrow> jsstring \<Rightarrow> jsstring \<Rightarrow> jsstring" where
  "replaceFirst ic r rep s =
     (case execFrom ic r None s of None \<Rightarrow> s | Some (sk, (p', r', cap)) \<Rightarrow> sk @ rep @ r')"

text \<open>
  \<open>s.replace(re, rep)\<close> for \<open>re\<close> with the \<open>g\<close> flag: every match from left to
  right, the search resuming where the last match ended (one character later after an
  empty match).
\<close>

function replaceAllFrom :: "bool \<Rightarrow> regex \<Rightarrow> jsstring \<Rightarrow> jschar option \<Rightarrow> jsstring \<Rightarrow> jsstring" where
  "replaceAllFrom ic r rep prev inp =
     (case execFrom ic r prev inp of
        None \<Rightarrow> inp
      | Some (sk, (p', r', cap)) \<Rightarrow>
          if length r' < length inp - length sk
          then sk @ rep @ replaceAllFrom ic r rep p' r'
          else (case drop (length sk) inp of
                  [] \<Rightarrow> sk @ rep
                | c # cs \<Rightarrow> sk @ rep @ c # replaceAllFrom ic r rep (Some c) cs))"
  by pat_completeness auto

termination
proof (relation "measure (\<lambda>(ic, r, rep, prev, inp). length inp)", goal_cases)
  case 1
  show ?case by simp
next
  case (2 ic r rep prev inp m sk st p' st' r' cap)
  then show ?case by simp
next
  case (3 ic r rep prev inp m sk st p' st' r' cap c cs)
  have "length (drop (length sk) inp) = length (c # cs)"
    using 3(6) by (rule arg_cong)
  then have "length cs < length inp" by simp
  then show ?case by simp
qed

definition replaceAll :: "bool \<Rightarrow> regex \<Rightarrow> jsstring \<Rightarrow> jsstring \<Rightarrow> jsstring" where
  "replaceAll ic r rep s = replaceAllFrom ic r rep None s"

section \<open>Text normalizer\<close>

text \<open>
  \<^verbatim>\<open>
  function cleanText(text) {
    return String(text || "")
      .replace(/\u00a0/g, " ")
      .replace(/\s+/g, " ")
      .replace(/[:\uff1a]+$/, "")
      .trim();
  }
  \<close>
  The argument is a string, \<open>null\<close> or \<open>undefined\<close>. The source writes the
  second colon of the class, the full-width colon U+FF1A, as the character itself.
\<close>

definition stringOrEmpty :: "jsstring option \<Rightarrow> jsstring" where
  "stringOrEmpty text = (case jsOr text (Some []) of None \<Rightarrow> [] | Some s \<Rightarrow> s)"

definition rxNbsp :: regex where
  "rxNbsp = RChars [160]"

definition rxSpaces :: regex where
  "rxSpaces = RClass [CSpace] 1 None"

definition rxTrailingColons :: regex where
  "rxTrailingColons = RSeq (RClass [CChar 58, CChar 65306] 1 None) REol"

definition cleanText :: "jsstring option \<Rightarrow> jsstring" where
  "cleanText text =
     trim (replaceFirst False rxTrailingColons []
       (replaceAll False rxSpaces [32]
         (replaceAll False rxNbsp [32] (stringOrEmpty text))))"

text \<open>
  \<^verbatim>\<open>
  function normalizeKey(s) {
    return cleanText(s).toLowerCase().replace(/\s+/g, " ").trim();
  }
  \<close>
  \<open>String.prototype.toLowerCase\<close> follows the Unicode case tables of the platform; it
  is the parameter \<open>lc\<close> of every function that reaches it.
\<close>

definition normalizeKey :: "(jsstring \<Rightarrow> jsstring) \<Rightarrow> jsstring option \<Rightarrow> jsstring" where
  "normalizeKey lc s = trim (replaceAll False rxSpaces [32] (lc (cleanText s)))"

section \<open>Name segmenter\<close>

record nameParts =
  full :: jsstring
  first :: "jsstring option"
  father :: "jsstring option"
  grandfather :: "jsstring option"
  rest :: "jsstring option"

text \<open>\<open>parts[i]\<close>, \<open>undefined\<close> out of range.\<close>

definition at :: "jsstring list \<Rightarrow> nat \<Rightarrow> jsstring option" where
  "at parts i = (if i < length parts then Some (parts ! i) else None)"

text \<open>
  \<^verbatim>\<open>
  function parseEthiopianName(fullName) {
    const cleaned = cleanText(fullName);
    if (!cleaned) return null;
    const parts = cleaned.split(" ").filter(Boolean);
    const [first, father, grandfather, ...rest] = parts;
    return {
      full: parts.join(" "),
      first: first || null,
      father: father || null,
      grandfather: grandfather || null,
      rest: rest.length ? rest.join(" ") : null,
    };
  }
  \<close>
\<close>

definition parseEthiopianName :: "jsstring option \<Rightarrow> nameParts option" where
  "parseEthiopianName fullName =
     (let cleaned = cleanText fullName in
      if cleaned = [] then None
      else
        let parts = filter (\<lambda>p. p \<noteq> []) (split 32 cleaned) in
        Some \<lparr> full = join [32] parts,
               first = jsOr (at parts 0) None,
               father = jsOr (at parts 1) None,
               grandfather = jsOr (at parts 2) None,
               rest = (if length (drop 3 parts) \<noteq> 0 then Some (join [32] (drop 3 parts)) else None) \<rparr>)"

section \<open>Junk filter\<close>

text \<open>
  \<^verbatim>\<open>
  function isPdfJunkValue(v) {
    const t = normalizeKey(v);
    return (
      t === "download the pdf" ||
      t === "download pdf" ||
      (t.includes("download") && t.includes("pdf"))
    );
  }
  \<close>
\<close>

definition isPdfJunkValue :: "(jsstring \<Rightarrow> jsstring) \<Rightarrow> jsstring \<Rightarrow> bool" where
  "isPdfJunkValue lc v =
     (let t = normalizeKey lc (Some v) in
      t = js ''download the pdf'' \<or> t = js ''download pdf''
      \<or> (sublist (js ''download'') t \<and> sublist (js ''pdf'') t))"

text \<open>
  \<^verbatim>\<open>
  function isJunkPair(key, value) {
    if (!key || !value) return true;
    if (isPdfJunkValue(value)) return true;
    if (normalizeKey(key) === normalizeKey(value)) return true;
    return false;
  }
  \<close>
\<close>

definition isJunkPair :: "(jsstring \<Rightarrow> jsstring) \<Rightarrow> jsstring \<Rightarrow> jsstring \<Rightarrow> bool" where
  "isJunkPair lc key val =
     (if key = [] \<or> val = [] then True
      else if isPdfJunkValue lc val then True
      else if normalizeKey lc (Some key) = normalizeKey lc (Some val) then True
      else False)"

section \<open>Raw pair extractor\<close>

text \<open>
  \<^verbatim>\<open>
  function extractByRegex(text, re) {
    const m = String(text || "").match(re);
    return m ? cleanText(m[1]) : null;
  }
  \<close>
\<close>

definition extractByRegex :: "jsstring option \<Rightarrow> bool \<Rightarrow> regex \<Rightarrow> jsstring option" where
  "extractByRegex text ic re =
     (case matchGroup1 ic re (stringOrEmpty text) of
        None \<Rightarrow> None
      | Some m1 \<Rightarrow> Some (cleanText m1))"

text \<open>
  The HTML parser (cheerio) is a collaborator outside the source. What the program reads
  from a loaded document is \<open>$("body").text()\<close> and, for every element of
  \<open>$("table tr")\<close> in document order, its \<open>th, td\<close> cells; of a cell it reads the
  text of a clone from which \<open>a, button, svg, script, style\<close> have been removed. A
  document is these two readings.
\<close>

record document =
  bodyText :: jsstring
  tableRows :: "jsstring list list"

text \<open>
  \<^verbatim>\<open>
  function cellTextNoLinks($cell) {
    const clone = $cell.clone();
    clone.find("a,button,svg,script,style").remove();
    const t = cleanText(clone.text());
    return isPdfJunkValue(t) ? "" : t;
  }
  \<close>
  The argument is \<open>clone.text()\<close>.
\<close>

definition cellTextNoLinks :: "(jsstring \<Rightarrow> jsstring) \<Rightarrow> jsstring \<Rightarrow> jsstring" where
  "cellTextNoLinks lc cloneText =
     (let t = cleanText (Some cloneText) in if isPdfJunkValue lc t then [] else t)"

text \<open>
  \<open>raw\<close> is a plain object \<open>{}\<close> whose values are strings: a map of its own
  properties. Reading \<open>raw[k]\<close> follows the prototype chain, so for a key that
  \<open>Object.prototype\<close> defines and \<open>raw\<close> does not, \<open>raw[k]\<close> is the inherited
  function or object, which is truthy.
\<close>

type_synonym jsobject = "jsstring \<rightharpoonup> jsstring"

definition objectPrototypeKeys :: "jsstring list" where
  "objectPrototypeKeys = map js
     [''constructor'', ''__defineGetter__'', ''__defineSetter__'', ''hasOwnProperty'',
      ''__lookupGetter__'', ''__lookupSetter__'', ''isPrototypeOf'', ''propertyIsEnumerable'',
      ''toString'', ''valueOf'', ''__proto__'', ''toLocaleString'']"

definition getTruthy :: "jsobject \<Rightarrow> jsstring \<Rightarrow> bool" where
  "getTruthy obj k =
     (case obj k of Some v \<Rightarrow> v \<noteq> [] | None \<Rightarrow> k \<in> set objectPrototypeKeys)"

text \<open>
  \<^verbatim>\<open>
  function extractReceiptRawPairs(html) {
    const $ = cheerio.load(html);
    const raw = {};
    $("table tr").each((_, row) => {
      const cells = $(row).find("th, td");
      if (cells.length < 2) return;
      const arr = [];
      cells.each((__, c) => arr.push(cellTextNoLinks($(c))));
      for (let i = 0; i < arr.length - 1; i += 2) {
        const k = arr[i];
        const v = arr[i + 1];
        if (!k || !v) continue;
        if (!raw[k]) raw[k] = v;
      }
    });
    return raw;
  }
  \<close>
  \<open>pairLoop\<close> is the \<open>for\<close> loop, \<open>rowStep\<close> the body of \<open>each\<close>.
\<close>

fun pairLoop :: "jsstring list \<Rightarrow> jsobject \<Rightarrow> jsobject" where
  "pairLoop (k # v # arr) raw =
     pairLoop arr
       (if k = [] \<or> v = [] then raw
        else if \<not> getTruthy raw k then raw(k \<mapsto> v) else raw)"
| "pairLoop arr raw = raw"

definition rowStep :: "(jsstring \<Rightarrow> jsstring) \<Rightarrow> jsobject \<Rightarrow> jsstring list \<Rightarrow> jsobject" where
  "rowStep lc raw cells =
     (if length cells < 2 then raw else pairLoop (map (cellTextNoLinks lc) cells) raw)"

definition extractReceiptRawPairs :: "(jsstring \<Rightarrow> jsstring) \<Rightarrow> document \<Rightarrow> jsobject" where
  "extractReceiptRawPairs lc doc = foldl (rowStep lc) Map.empty (tableRows doc)"

text \<open>
  \<^verbatim>\<open>
  function cleanRawPairs(rawPairs) {
    const out = {};
    for (const [k, v] of Object.entries(rawPairs || {})) {
      if (isJunkPair(k, v)) continue;
      out[k] = v;
    }
    return out;
  }
  \<close>
\<close>

definition cleanRawPairs :: "(jsstring \<Rightarrow> jsstring) \<Rightarrow> jsobject \<Rightarrow> jsobject" where
  "cleanRawPairs lc rawPairs =
     (\<lambda>k. case rawPairs k of None \<Rightarrow> None
                           | Some v \<Rightarrow> if isJunkPair lc k v then None else Some v)"

text \<open>
  \<^verbatim>\<open>
  function pickExact(raw, keys) {
    for (const k of keys) if (raw[k]) return raw[k];
    return null;
  }
  \<close>
  The keys passed are the label lists below, none of which is a key of
  \<open>Object.prototype\<close>, so \<open>raw[k]\<close> is an own property or \<open>undefined\<close>.
\<close>

fun pickExact :: "jsobject \<Rightarrow> jsstring list \<Rightarrow> jsstring option" where
  "pickExact raw [] = None"
| "pickExact raw (k # keys) = (if truthy (raw k) then raw k else pickExact raw keys)"

section \<open>Canonical field resolver\<close>

record canonical =
  payerName :: "jsstring option"
  payerNameParts :: "nameParts option"
  payerTelebirrNo :: "jsstring option"
  creditedPartyName :: "jsstring option"
  creditedPartyNameParts :: "nameParts option"
  creditedPartyAccountNo :: "jsstring option"
  transactionStatus :: "jsstring option"
  invoiceNo :: "jsstring option"
  paymentDate :: "jsstring option"
  settledAmount :: "jsstring option"
  rawData :: jsobject
  sourceUrl :: "jsstring option"

text \<open>\<open>/download the pdf/gi\<close>\<close>

definition rxDownloadThePdf :: regex where
  "rxDownloadThePdf = RChars (js ''download the pdf'')"

text \<open>\<open>/\bInvoice No\.\s*([A-Z0-9]{6,})\b/i\<close>\<close>

definition rxInvoiceNo :: regex where
  "rxInvoiceNo = rseq
     [RWordB, RChars (js ''Invoice No.''), RClass [CSpace] 0 None,
      RGroup (RClass [CRange 65 90, CRange 48 57] 6 None), RWordB]"

text \<open>
  \<open>/\bPayment date\s*([0-9]{2}[-/][0-9]{2}[-/][0-9]{4}\s+[0-9]{2}:[0-9]{2}:[0-9]{2})\b/i\<close>
\<close>

definition rxPaymentDate :: regex where
  "rxPaymentDate = rseq
     [RWordB, RChars (js ''Payment date''), RClass [CSpace] 0 None,
      RGroup (rseq
        [RClass [CRange 48 57] 2 (Some 2), RClass [CChar 45, CChar 47] 1 (Some 1),
         RClass [CRange 48 57] 2 (Some 2), RClass [CChar 45, CChar 47] 1 (Some 1),
         RClass [CRange 48 57] 4 (Some 4), RClass [CSpace] 1 None,
         RClass [CRange 48 57] 2 (Some 2), RChars (js '':''),
         RClass [CRange 48 57] 2 (Some 2), RChars (js '':''),
         RClass [CRange 48 57] 2 (Some 2)]),
      RWordB]"

text \<open>\<open>/\bSettled Amount\s*([0-9,]+(?:\.[0-9]{1,2})?)\s*Birr\b/i\<close>\<close>

definition rxSettledAmount :: regex where
  "rxSettledAmount = rseq
     [RWordB, RChars (js ''Settled Amount''), RClass [CSpace] 0 None,
      RGroup (RSeq (RClass [CRange 48 57, CChar 44] 1 None)
                   (ROpt (RSeq (RChars (js ''.'')) (RClass [CRange 48 57] 1 (Some 2))))),
      RClass [CSpace] 0 None, RChars (js ''Birr''), RWordB]"

text \<open>The label lists of the source; the Amharic part of a label is given by its code units.\<close>

definition payerNameKeys :: "jsstring list" where
  "payerNameKeys =
     [[4840, 4776, 4939, 4845, 32, 4661, 4637, 47] @ js ''Payer Name'',
      js ''Payer Name'']"

definition creditedNameKeys :: "jsstring list" where
  "creditedNameKeys =
     [[4840, 4872, 4757, 4824, 4709, 32, 4720, 4672, 4707, 4845, 32, 4661, 4637, 47]
        @ js ''Credited Party name'',
      [4840, 4872, 4757, 4824, 4709, 32, 4720, 4672, 4707, 4845, 32, 4661, 4637, 47]
        @ js ''Credited party name'',
      js ''Credited Party name'']"

definition payerTelebirrNoKeys :: "jsstring list" where
  "payerTelebirrNoKeys =
     [[4840, 4776, 4939, 4845, 32, 4724, 4620, 4709, 4653, 32, 4673, 46, 47]
        @ js ''Payer telebirr no.'',
      js ''Payer telebirr no.'']"

definition creditedPartyAccountNoKeys :: "jsstring list" where
  "creditedPartyAccountNoKeys =
     [[4840, 4872, 4757, 4824, 4709, 32, 4720, 4672, 4707, 4845, 32, 4724, 4620, 4709, 4653,
       32, 4673, 46, 47] @ js ''Credited party account no'',
      js ''Credited party account no'']"

definition transactionStatusKeys :: "jsstring list" where
  "transactionStatusKeys =
     [[4840, 4781, 4941, 4843, 4813, 32, 4609, 4756, 4723, 47] @ js ''transaction status'',
      js ''Transaction status'']"

text \<open>
  \<^verbatim>\<open>
  function extractCanonical(html, tx) {
    const $ = cheerio.load(html);
    const rawPairs = extractReceiptRawPairs(html);
    const raw = cleanRawPairs(rawPairs);
    const bodyText = cleanText($("body").text()).replace(/download the pdf/gi, "");
    const payerNameStr = pickExact(raw, [...]);
    const creditedNameStr = pickExact(raw, [...]);
    const canonical = {
      payerName: payerNameStr ? cleanText(payerNameStr) : null,
      payerNameParts: parseEthiopianName(payerNameStr),
      payerTelebirrNo: pickExact(raw, [...]),
      creditedPartyName: creditedNameStr ? cleanText(creditedNameStr) : null,
      creditedPartyNameParts: parseEthiopianName(creditedNameStr),
      creditedPartyAccountNo: pickExact(raw, [...]),
      transactionStatus: pickExact(raw, [...]),
      invoiceNo: extractByRegex(bodyText, /\bInvoice No\.\s*([A-Z0-9]{6,})\b/i) || tx,
      paymentDate: extractByRegex(bodyText, /\bPayment date .../i) || null,
      settledAmount: extractByRegex(bodyText, /\bSettled Amount .../i) || null,
      rawData: raw,
    };
    return canonical;
  }
  \<close>
  The argument \<open>doc\<close> is \<open>cheerio.load(html)\<close>. \<open>resolvedBodyText\<close> is the constant
  \<open>bodyText\<close> of the function.
\<close>

definition resolvedBodyText :: "document \<Rightarrow> jsstring" where
  "resolvedBodyText doc = replaceAll True rxDownloadThePdf [] (cleanText (Some (bodyText doc)))"

definition extractCanonical :: "(jsstring \<Rightarrow> jsstring) \<Rightarrow> document \<Rightarrow> jsstring \<Rightarrow> canonical" where
  "extractCanonical lc doc tx =
     (let rawPairs = extractReceiptRawPairs lc doc;
          raw = cleanRawPairs lc rawPairs;
          bodyText = resolvedBodyText doc;
          payerNameStr = pickExact raw payerNameKeys;
          creditedNameStr = pickExact raw creditedNameKeys
      in \<lparr> payerName = (if truthy payerNameStr then Some (cleanText payerNameStr) else None),
           payerNameParts = parseEthiopianName payerNameStr,
           payerTelebirrNo = pickExact raw payerTelebirrNoKeys,
           creditedPartyName =
             (if truthy creditedNameStr then Some (cleanText creditedNameStr) else None),
           creditedPartyNameParts = parseEthiopianName creditedNameStr,
           creditedPartyAccountNo = pickExact raw creditedPartyAccountNoKeys,
           transactionStatus = pickExact raw transactionStatusKeys,
           invoiceNo = jsOr (extractByRegex (Some bodyText) True rxInvoiceNo) (Some tx),
           paymentDate = jsOr (extractByRegex (Some bodyText) True rxPaymentDate) None,
           settledAmount = jsOr (extractByRegex (Some bodyText) True rxSettledAmount) None,
           rawData = raw,
           sourceUrl = None \<rparr>)"

section \<open>Identifier and URL safety gate\<close>

record presence =
  hasInvoiceNo :: bool
  hasSettledAmount :: bool
  hasCreditedPartyAccountNo :: bool

text \<open>
  The errors of the page fetch, by their \<open>code\<close>: \<open>getBrowser\<close> throws
  \<open>BROWSER_LAUNCH_FAILED\<close>; \<open>fetchReceiptWithPuppeteer\<close> throws
  \<open>PAGE_LOAD_FAILED\<close>, \<open>HTTP_ERROR\<close> with the status, \<open>PAGE_TIMEOUT\<close>,
  \<open>NAVIGATION_ERROR\<close>, and throws on as it is an error of the browser library that
  carries a code of its own (\<open>if (error.code) throw error\<close>).
\<close>

datatype fetchError =
    BROWSER_LAUNCH_FAILED
  | PAGE_LOAD_FAILED
  | HTTP_ERROR nat
  | PAGE_TIMEOUT
  | NAVIGATION_ERROR
  | OTHER_CODE jsstring

text \<open>
  The errors the pipeline throws, by their \<open>code\<close>, with the \<open>details\<close> where the
  source sets them (\<open>TX_FORMAT\<close> carries them only in \<open>getReceiptFromUrl\<close>), and
  the errors of the page fetch, which pass through.
\<close>

datatype error =
    TX_FORMAT "jsstring option"
  | INVALID_URL
  | INVALID_PROTOCOL
  | HOST_NOT_ALLOWED jsstring
  | TX_EXTRACT_FAILED
  | EMPTY_HTML
  | TX_NOT_FOUND
  | PARSE_FAIL presence
  | FETCH_FAILED fetchError

text \<open>
  What the program reads of \<open>new URL(url)\<close>: \<open>protocol\<close>, \<open>hostname\<close>,
  \<open>pathname\<close> and \<open>searchParams\<close> (names and values in order). \<open>new URL\<close> is the
  platform's parser; its outcome is a \<open>url option\<close>, \<open>None\<close> when it throws.
\<close>

record url =
  protocol :: jsstring
  hostname :: jsstring
  pathname :: jsstring
  searchParams :: "(jsstring \<times> jsstring) list"

text \<open>\<open>const ALLOWED_HOSTS = new Set(["transactioninfo.ethiotelecom.et"]);\<close>\<close>

definition ALLOWED_HOSTS :: "jsstring list" where
  "ALLOWED_HOSTS = [js ''transactioninfo.ethiotelecom.et'']"

text \<open>
  \<^verbatim>\<open>
  function assertAllowedHost(url) {
    let u;
    try { u = new URL(url); }
    catch (e) { ... err.code = "INVALID_URL"; throw err; }
    if (!["http:", "https:"].includes(u.protocol)) {
      ... err.code = "INVALID_PROTOCOL"; throw err;
    }
    if (!ALLOWED_HOSTS.has(u.hostname)) {
      ... err.code = "HOST_NOT_ALLOWED";
      err.details = `Host "${u.hostname}" is not in the allowed list.`;
      throw err;
    }
  }
  \<close>
  The argument is the outcome of \<open>new URL(url)\<close>.
\<close>

definition assertAllowedHost :: "url option \<Rightarrow> error + unit" where
  "assertAllowedHost parsed =
     (case parsed of
        None \<Rightarrow> Inl INVALID_URL
      | Some u \<Rightarrow>
          if protocol u \<notin> set [js ''http:'', js ''https:''] then Inl INVALID_PROTOCOL
          else if hostname u \<notin> set ALLOWED_HOSTS
          then Inl (HOST_NOT_ALLOWED
                 (js ''Host '' @ [34] @ hostname u @ [34] @ js '' is not in the allowed list.''))
          else Inr ())"

text \<open>
  \<^verbatim>\<open>
  function extractTxFromUrl(url) {
    try {
      const urlObj = new URL(url);
      const pathParts = urlObj.pathname.split("/").filter(Boolean);
      if (pathParts.length >= 2 && pathParts[0] === "receipt") {
        return pathParts[1];
      }
      const txParam = urlObj.searchParams.get("tx") || urlObj.searchParams.get("id");
      if (txParam) return txParam;
      return pathParts[pathParts.length - 1] || null;
    } catch (e) {
      return null;
    }
  }
  \<close>
  The argument is the outcome of \<open>new URL(url)\<close>; \<open>searchParams.get\<close> returns the
  value of the first parameter of that name, or \<open>null\<close>.
\<close>

definition pathParts :: "url \<Rightarrow> jsstring list" where
  "pathParts urlObj = filter (\<lambda>p. p \<noteq> []) (split 47 (pathname urlObj))"

definition lastPart :: "jsstring list \<Rightarrow> jsstring option" where
  "lastPart parts = (if parts = [] then None else Some (last parts))"

definition extractTxFromUrl :: "url option \<Rightarrow> jsstring option" where
  "extractTxFromUrl parsed =
     (case parsed of
        None \<Rightarrow> None
      | Some urlObj \<Rightarrow>
          if length (pathParts urlObj) \<ge> 2 \<and> pathParts urlObj ! 0 = js ''receipt''
          then Some (pathParts urlObj ! 1)
          else
            let txParam = jsOr (map_of (searchParams urlObj) (js ''tx''))
                               (map_of (searchParams urlObj) (js ''id''))
            in if truthy txParam then txParam
               else jsOr (lastPart (pathParts urlObj)) None)"

section \<open>Pipeline\<close>

text \<open>\<open>/^[A-Za-z0-9]{10}$/\<close>\<close>

definition rxTransactionCode :: regex where
  "rxTransactionCode = rseq
     [RBol, RClass [CRange 65 90, CRange 97 122, CRange 48 57] 10 (Some 10), REol]"

text \<open>\<open>/no\s+data|not\s+found|invalid\s+invoice|does\s+not\s+exist/i\<close>\<close>

definition rxNotFound :: regex where
  "rxNotFound =
     RAlt (rseq [RChars (js ''no''), RClass [CSpace] 1 None, RChars (js ''data'')])
    (RAlt (rseq [RChars (js ''not''), RClass [CSpace] 1 None, RChars (js ''found'')])
    (RAlt (rseq [RChars (js ''invalid''), RClass [CSpace] 1 None, RChars (js ''invoice'')])
          (rseq [RChars (js ''does''), RClass [CSpace] 1 None, RChars (js ''not''),
                 RClass [CSpace] 1 None, RChars (js ''exist'')])))"

text \<open>What \<open>fetchReceiptWithPuppeteer\<close> returns: \<open>{ html, status, url: page.url() }\<close>.\<close>

record fetched =
  html :: jsstring
  status :: nat
  finalUrl :: jsstring

text \<open>
  The collaborators outside the source: \<open>String.prototype.toLowerCase\<close>,
  \<open>new URL\<close>, \<open>encodeURIComponent\<close>, \<open>cheerio.load\<close>, the page fetch through
  the headless browser (\<open>fetchReceiptWithPuppeteer\<close>, which throws an error of the
  page fetch or returns the page; the timeout it is given comes from the environment and
  is part of it here), and the environment variable \<open>RECEIPT_URL_TEMPLATE\<close>.
\<close>

record platform =
  toLowerCase :: "jsstring \<Rightarrow> jsstring"
  newURL :: "jsstring \<Rightarrow> url option"
  encodeURIComponent :: "jsstring \<Rightarrow> jsstring"
  cheerioLoad :: "jsstring \<Rightarrow> document"
  fetchReceiptWithPuppeteer :: "jsstring \<Rightarrow> fetchError + fetched"
  envReceiptUrlTemplate :: "jsstring option"

text \<open>
  \<^verbatim>\<open>
  const RECEIPT_URL_TEMPLATE =
    process.env.RECEIPT_URL_TEMPLATE ||
    "https://transactioninfo.ethiotelecom.et/receipt/{tx}";
  \<close>
\<close>

definition RECEIPT_URL_TEMPLATE :: "platform \<Rightarrow> jsstring" where
  "RECEIPT_URL_TEMPLATE pf =
     stringOrEmpty (jsOr (envReceiptUrlTemplate pf)
       (Some (js ''https://transactioninfo.ethiotelecom.et/receipt/{tx}'')))"

text \<open>
  \<open>s.replace(pat, rep)\<close> for a string \<open>pat\<close>: the first occurrence. The replacement
  is taken as it is: the one the source passes is the result of \<open>encodeURIComponent\<close>,
  which has no \<open>$\<close>.
\<close>

fun replaceString :: "jsstring \<Rightarrow> jsstring \<Rightarrow> jsstring \<Rightarrow> jsstring" where
  "replaceString pat rep [] = (if pat = [] then rep else [])"
| "replaceString pat rep (c # cs) =
     (if prefix pat (c # cs) then rep @ drop (length pat) (c # cs)
      else c # replaceString pat rep cs)"

text \<open>
  \<^verbatim>\<open>
  function buildReceiptUrlFromTx(tx) {
    return RECEIPT_URL_TEMPLATE.replace("{tx}", encodeURIComponent(tx));
  }
  \<close>
\<close>

definition buildReceiptUrlFromTx :: "platform \<Rightarrow> jsstring \<Rightarrow> jsstring" where
  "buildReceiptUrlFromTx pf tx =
     replaceString (js ''{tx}'') (encodeURIComponent pf tx) (RECEIPT_URL_TEMPLATE pf)"

text \<open>
  The acceptance gate of \<open>getReceiptCanonical\<close>:
  \<^verbatim>\<open>
  if (!canonical.invoiceNo || !canonical.settledAmount || !canonical.creditedPartyAccountNo) {
    const err = new Error(ERROR_CODES.PARSE_FAIL);
    err.code = "PARSE_FAIL";
    err.details = {
      hasInvoiceNo: !!canonical.invoiceNo,
      hasSettledAmount: !!canonical.settledAmount,
      hasCreditedPartyAccountNo: !!canonical.creditedPartyAccountNo,
    };
    throw err;
  }
  \<close>
\<close>

definition requireCriticalFields :: "canonical \<Rightarrow> error + canonical" where
  "requireCriticalFields c =
     (if \<not> truthy (invoiceNo c) \<or> \<not> truthy (settledAmount c)
         \<or> \<not> truthy (creditedPartyAccountNo c)
      then Inl (PARSE_FAIL \<lparr> hasInvoiceNo = truthy (invoiceNo c),
                             hasSettledAmount = truthy (settledAmount c),
                             hasCreditedPartyAccountNo = truthy (creditedPartyAccountNo c) \<rparr>)
      else Inr c)"

text \<open>
  What \<open>getReceiptCanonical\<close> does with the fetched page:
  \<^verbatim>\<open>
  if (!html || html.length < 200) { ... err.code = "EMPTY_HTML"; throw err; }
  const $ = cheerio.load(html);
  const bodyText = cleanText($("body").text());
  if (/no\s+data|not\s+found|invalid\s+invoice|does\s+not\s+exist/i.test(bodyText)) {
    ... err.code = "TX_NOT_FOUND"; throw err;
  }
  const canonical = extractCanonical(html, tx);
  (the acceptance gate)
  canonical.sourceUrl = finalUrl;
  return canonical;
  \<close>
\<close>

definition processFetched :: "platform \<Rightarrow> jsstring \<Rightarrow> fetched \<Rightarrow> error + canonical" where
  "processFetched pf tx page =
     (if html page = [] \<or> length (html page) < 200 then Inl EMPTY_HTML
      else
        let doc = cheerioLoad pf (html page);
            bodyText = cleanText (Some (bodyText doc))
        in if regexTest True rxNotFound bodyText then Inl TX_NOT_FOUND
           else
             (case requireCriticalFields (extractCanonical (toLowerCase pf) doc tx) of
                Inl e \<Rightarrow> Inl e
              | Inr c \<Rightarrow> Inr (c\<lparr> sourceUrl := Some (finalUrl page) \<rparr>)))"

text \<open>
  \<^verbatim>\<open>
  async function getReceiptCanonical(tx) {
    if (!/^[A-Za-z0-9]{10}$/.test(tx)) { ... err.code = "TX_FORMAT"; throw err; }
    const receiptUrl = buildReceiptUrlFromTx(tx);
    assertAllowedHost(receiptUrl);
    const timeoutMs = Number(process.env.RECEIPT_FETCH_TIMEOUT_MS || 30000);
    const { html, url: finalUrl } = await fetchReceiptWithPuppeteer(receiptUrl, timeoutMs);
    ... (the fetched page, above)
  }
  \<close>
\<close>

definition getReceiptCanonical :: "platform \<Rightarrow> jsstring \<Rightarrow> error + canonical" where
  "getReceiptCanonical pf tx =
     (if \<not> regexTest False rxTransactionCode tx then Inl (TX_FORMAT None)
      else
        let receiptUrl = buildReceiptUrlFromTx pf tx in
        (case assertAllowedHost (newURL pf receiptUrl) of
           Inl e \<Rightarrow> Inl e
         | Inr ok \<Rightarrow>
             (case fetchReceiptWithPuppeteer pf receiptUrl of
                Inl e \<Rightarrow> Inl (FETCH_FAILED e)
              | Inr page \<Rightarrow> processFetched pf tx page)))"

text \<open>
  \<^verbatim>\<open>
  async function getReceiptFromUrl(url) {
    assertAllowedHost(url);
    const tx = extractTxFromUrl(url);
    if (!tx) { ... err.code = "TX_EXTRACT_FAILED"; throw err; }
    if (!/^[A-Za-z0-9]{10}$/.test(tx)) {
      ... err.code = "TX_FORMAT"; err.details = `Extracted code: "${tx}"`; throw err;
    }
    return getReceiptCanonical(tx);
  }
  \<close>
\<close>

definition getReceiptFromUrl :: "platform \<Rightarrow> jsstring \<Rightarrow> error + canonical" where
  "getReceiptFromUrl pf u =
     (case assertAllowedHost (newURL pf u) of
        Inl e \<Rightarrow> Inl e
      | Inr ok \<Rightarrow>
          (case extractTxFromUrl (newURL pf u) of
             None \<Rightarrow> Inl TX_EXTRACT_FAILED
           | Some tx \<Rightarrow>
               if tx = [] then Inl TX_EXTRACT_FAILED
               else if \<not> regexTest False rxTransactionCode tx
               then Inl (TX_FORMAT (Some (js ''Extracted code: '' @ [34] @ tx @ [34])))
               else getReceiptCanonical pf tx))"

section \<open>Auxiliary functions of the proofs\<close>

text \<open>The character before the position reached by reading \<open>w\<close>.\<close>

definition lastOr :: "jschar option \<Rightarrow> jsstring \<Rightarrow> jschar option" where
  "lastOr prev w = (if w = [] then prev else Some (last w))"

text \<open>An ASCII letter or digit.\<close>

definition isAsciiAlnum :: "jschar \<Rightarrow> bool" where
  "isAsciiAlnum c = ((65 \<le> c \<and> c \<le> 90) \<or> (97 \<le> c \<and> c \<le> 122) \<or> (48 \<le> c \<and> c \<le> 57))"

text \<open>
  What the three replacements of \<open>cleanText\<close> compute: every no-break space becomes a
  space, every run of white space becomes one space, the colons at the end are removed.
\<close>

definition nbspToSpace :: "jschar \<Rightarrow> jschar" where
  "nbspToSpace c = (if c = 160 then 32 else c)"

function collapseSpaces :: "jsstring \<Rightarrow> jsstring" where
  "collapseSpaces [] = []"
| "collapseSpaces (c # cs) =
     (if isSpace c then 32 # collapseSpaces (dropWhile isSpace cs) else c # collapseSpaces cs)"
  by pat_completeness auto

termination
  by (relation "measure length") (auto simp add: length_dropWhile_le less_Suc_eq_le)

definition isColon :: "jschar \<Rightarrow> bool" where
  "isColon c = (c = 58 \<or> c = 65306)"

definition stripTrailingColons :: "jsstring \<Rightarrow> jsstring" where
  "stripTrailingColons s = rev (dropWhile isColon (rev s))"

text \<open>
  White space in normal form: every white space character is a space and is followed by a
  character that is not white space, if by any.
\<close>

fun singleSpaced :: "jsstring \<Rightarrow> bool" where
  "singleSpaced [] = True"
| "singleSpaced [c] = (isSpace c \<longrightarrow> c = 32)"
| "singleSpaced (c # d # cs) = ((isSpace c \<longrightarrow> c = 32 \<and> \<not> isSpace d) \<and> singleSpaced (d # cs))"

text \<open>The tokens of a text: its maximal runs of characters that are not white space.\<close>

function tokensOf :: "jsstring \<Rightarrow> jsstring list" where
  "tokensOf [] = []"
| "tokensOf (c # cs) =
     (if isSpace c then tokensOf cs
      else takeWhile (\<lambda>x. \<not> isSpace x) (c # cs) # tokensOf (dropWhile (\<lambda>x. \<not> isSpace x) cs))"
  by pat_completeness auto

termination
  by (relation "measure length") (auto simp add: length_dropWhile_le less_Suc_eq_le)

text \<open>
  The pairs of a row: \<open>(cell[0], cell[1]), (cell[2], cell[3]), ...\<close>; a last cell without
  partner is dropped.
\<close>

fun pairUp :: "'a list \<Rightarrow> ('a \<times> 'a) list" where
  "pairUp (k # v # arr) = (k, v) # pairUp arr"
| "pairUp arr = []"

text \<open>
  The pairs of a document in document order, for a given reading of a cell: rows of fewer
  than 2 cells are skipped, the cells of the others are paired, and a pair with an empty
  side is skipped.
\<close>

definition pairsOf :: "(jsstring \<Rightarrow> jsstring) \<Rightarrow> document \<Rightarrow> (jsstring \<times> jsstring) list" where
  "pairsOf cellText doc =
     filter (\<lambda>(k, v). k \<noteq> [] \<and> v \<noteq> [])
       (concat (map (\<lambda>cells. if length cells < 2 then [] else pairUp (map cellText cells))
                    (tableRows doc)))"

text \<open>
  The pairs as C4 words them, from the cleaned cell texts; and the pairs as the source
  reads the cells, through \<open>cellTextNoLinks\<close>, which also empties a cell whose cleaned text
  is a PDF download label.
\<close>

definition claimedPairs :: "document \<Rightarrow> (jsstring \<times> jsstring) list" where
  "claimedPairs doc = pairsOf (\<lambda>t. cleanText (Some t)) doc"

definition storedPairs :: "(jsstring \<Rightarrow> jsstring) \<Rightarrow> document \<Rightarrow> (jsstring \<times> jsstring) list" where
  "storedPairs lc doc = pairsOf (cellTextNoLinks lc) doc"

text \<open>What holds of \<open>raw\<close> throughout: no stored value is empty, no key of
  \<open>Object.prototype\<close> is stored.\<close>

definition rawInv :: "jsobject \<Rightarrow> bool" where
  "rawInv raw = ((\<forall>k v. raw k = Some v \<longrightarrow> v \<noteq> []) \<and> (\<forall>k \<in> set objectPrototypeKeys. raw k = None))"

text \<open>
  \<open>firstIs ic r st st'\<close>: the first state the matcher of \<open>r\<close> ends in from \<open>st\<close>, the one
  a match takes, is \<open>st'\<close>.
\<close>

definition firstIs :: "bool \<Rightarrow> regex \<Rightarrow> mstate \<Rightarrow> mstate \<Rightarrow> bool" where
  "firstIs ic r st st' = (\<exists>ms. rmatch ic r st = st' # ms)"

text \<open>
  The phrases of C6, and a text that contains one of them, ignoring the case of ASCII
  letters.
\<close>

definition containsIgnoringCase :: "jsstring \<Rightarrow> jsstring \<Rightarrow> bool" where
  "containsIgnoringCase phrase text = sublist (map asciiLower phrase) (map asciiLower text)"

definition notFoundPhrases :: "jsstring list" where
  "notFoundPhrases = [js ''no data'', js ''not found'', js ''invalid invoice'', js ''does not exist'']"

definition hasNotFoundPhrase :: "jsstring \<Rightarrow> bool" where
  "hasNotFoundPhrase text = list_ex (\<lambda>p. containsIgnoringCase p text) notFoundPhrases"

text \<open>
  The settled amount as C5 words it. An amount text is a non-empty run of digits and
  commas, then optionally a point and one or two digits. \<open>settledAmountAt text pre num\<close>:
  after the prefix \<open>pre\<close>, \<open>text\<close> goes on with \<open>Settled Amount\<close> (in any case), white
  space if any, the amount text \<open>num\<close>, white space if any, and \<open>Birr\<close> (in any case);
  no word character stands right before \<open>Settled\<close> or right after \<open>Birr\<close>.
\<close>

definition isDigit :: "jschar \<Rightarrow> bool" where
  "isDigit c = (48 \<le> c \<and> c \<le> 57)"

definition isFraction :: "jsstring \<Rightarrow> bool" where
  "isFraction frac =
     (frac = [] \<or> (hd frac = 46 \<and> tl frac \<noteq> [] \<and> length (tl frac) \<le> 2 \<and> list_all isDigit (tl frac)))"

definition isAmountText :: "jsstring \<Rightarrow> bool" where
  "isAmountText num =
     (\<exists>ds frac. num = ds @ frac \<and> ds \<noteq> [] \<and> list_all (\<lambda>c. isDigit c \<or> c = 44) ds
        \<and> isFraction frac)"

definition settledAmountAt :: "jsstring \<Rightarrow> jsstring \<Rightarrow> jsstring \<Rightarrow> bool" where
  "settledAmountAt text pre num =
     (\<exists>a s1 s2 b post.
        text = pre @ a @ s1 @ num @ s2 @ b @ post
        \<and> map asciiLower a = js ''settled amount''
        \<and> list_all isSpace s1 \<and> isAmountText num \<and> list_all isSpace s2
        \<and> map asciiLower b = js ''birr''
        \<and> (pre = [] \<or> \<not> isWordChar (last pre))
        \<and> (post = [] \<or> \<not> isWordChar (hd post)))"

section \<open>The URL parser on plain URL texts\<close>

text \<open>
  \<open>new URL(url)\<close> follows the URL Standard. Its outcome is modelled here on the plain
  URL texts \<open>scheme://host/path\<close>: the scheme is \<open>http\<close>, \<open>https\<close> or \<open>ftp\<close> in
  any case; the host is made of labels of ASCII letters and digits separated by dots, none
  empty, the last one of letters only (so the host is a domain, not an IPv4 address); the
  path is empty or made of slashes, ASCII letters, digits and underscores. On such a text
  the parser lower-cases the scheme and the host, keeps the path (\<open>/\<close> for the empty
  one), and finds no query. \<open>plainURL\<close> is \<open>None\<close> on every other text, of which it
  says nothing.
\<close>

definition isAsciiLetter :: "jschar \<Rightarrow> bool" where
  "isAsciiLetter c = ((65 \<le> c \<and> c \<le> 90) \<or> (97 \<le> c \<and> c \<le> 122))"

text \<open>The text before the first colon, and the text after the three characters from it.\<close>

definition schemeText :: "jsstring \<Rightarrow> jsstring" where
  "schemeText s = takeWhile (\<lambda>c. c \<noteq> 58) s"

definition afterScheme :: "jsstring \<Rightarrow> jsstring" where
  "afterScheme s = drop 3 (dropWhile (\<lambda>c. c \<noteq> 58) s)"

text \<open>The text from there to the first slash, and the text from that slash on.\<close>

definition hostText :: "jsstring \<Rightarrow> jsstring" where
  "hostText s = takeWhile (\<lambda>c. c \<noteq> 47) (afterScheme s)"

definition pathText :: "jsstring \<Rightarrow> jsstring" where
  "pathText s = dropWhile (\<lambda>c. c \<noteq> 47) (afterScheme s)"

definition isPlainHost :: "jsstring \<Rightarrow> bool" where
  "isPlainHost host =
     (list_all (\<lambda>l. l \<noteq> [] \<and> list_all isAsciiAlnum l) (split 46 host)
      \<and> list_all isAsciiLetter (last (split 46 host)))"

definition isPlainPath :: "jsstring \<Rightarrow> bool" where
  "isPlainPath path = list_all (\<lambda>c. isAsciiAlnum c \<or> c = 47 \<or> c = 95) path"

definition plainURL :: "jsstring \<Rightarrow> url option" where
  "plainURL s =
     (if map asciiLower (schemeText s) \<in> set [js ''http'', js ''https'', js ''ftp'']
         \<and> take 3 (dropWhile (\<lambda>c. c \<noteq> 58) s) = js ''://''
         \<and> isPlainHost (hostText s) \<and> isPlainPath (pathText s)
      then Some \<lparr> protocol = map asciiLower (schemeText s) @ [58],
                  hostname = map asciiLower (hostText s),
                  pathname = (if pathText s = [] then [47] else pathText s),
                  searchParams = [] \<rparr>
      else None)"

section \<open>Sample inputs\<close>

definition sampleRecord :: "jsstring option \<Rightarrow> canonical" where
  "sampleRecord acct =
     \<lparr> payerName = None, payerNameParts = None, payerTelebirrNo = None,
       creditedPartyName = None, creditedPartyNameParts = None,
       creditedPartyAccountNo = acct, transactionStatus = None,
       invoiceNo = Some (js ''ABC12345XYZ''), paymentDate = None,
       settledAmount = Some (js ''500.00''), rawData = Map.empty, sourceUrl = None \<rparr>"

definition samplePathUrl :: "jsstring \<Rightarrow> (jsstring \<times> jsstring) list \<Rightarrow> url" where
  "samplePathUrl path params =
     \<lparr> protocol = js ''https:'', hostname = js ''transactioninfo.ethiotelecom.et'',
       pathname = path, searchParams = params \<rparr>"

text \<open>
  A stand-in for the platform on the inputs of the examples: the URL parser on plain URL
  texts (\<open>plainURL\<close>, which throws on every other text, as the parser does on
  \<open>not a url\<close>), \<open>encodeURIComponent\<close> on letters and digits, \<open>toLowerCase\<close> on
  ASCII text, a fetch that returns a page of 200 characters, and an HTML parser that reads
  the document \<open>doc\<close> from it.
\<close>

definition samplePlatform :: "document \<Rightarrow> platform" where
  "samplePlatform doc =
     \<lparr> toLowerCase = map asciiLower,
       newURL = plainURL,
       encodeURIComponent = (\<lambda>s. s),
       cheerioLoad = (\<lambda>h. doc),
       fetchReceiptWithPuppeteer = (\<lambda>u. Inr \<lparr> html = replicate 200 32, status = 200, finalUrl = u \<rparr>),
       envReceiptUrlTemplate = None \<rparr>"

definition docPayerTwice :: document where
  "docPayerTwice =
     \<lparr> bodyText = [],
       tableRows = [[js ''Payer Name'', js ''Abebe Kebede''],
                    [js ''Payer Name'', js ''Duplicate Value'']] \<rparr>"

definition docPdfLabel :: document where
  "docPdfLabel = \<lparr> bodyText = [], tableRows = [[js ''Receipt'', js ''Download PDF'']] \<rparr>"

definition docNotFound :: document where
  "docNotFound = \<lparr> bodyText = js ''Invalid Invoice number'', tableRows = [] \<rparr>"

definition shortPage :: fetched where
  "shortPage =
     \<lparr> html = js ''<html><head></head><body>Invalid Invoice number</body></html>'',
       status = 200,
       finalUrl = js ''https://transactioninfo.ethiotelecom.et/receipt/ABCDE12345'' \<rparr>"

definition longPage :: fetched where
  "longPage =
     \<lparr> html = replicate 200 32, status = 200,
       finalUrl = js ''https://transactioninfo.ethiotelecom.et/receipt/ABCDE12345'' \<rparr>"

definition docSettled :: document where
  "docSettled = \<lparr> bodyText = js ''Settled Amount 1,234.50 Birr'', tableRows = [] \<rparr>"

definition docEmpty :: document where
  "docEmpty = \<lparr> bodyText = [], tableRows = [] \<rparr>"

definition docConstructor :: document where
  "docConstructor = \<lparr> bodyText = [], tableRows = [[js ''constructor'', js ''x'']] \<rparr>"

definition docComma :: document where
  "docComma = \<lparr> bodyText = js ''Settled Amount , Birr'', tableRows = [] \<rparr>"

definition docUnsettled :: document where
  "docUnsettled = \<lparr> bodyText = js ''UnSettled Amount 5 Birr'', tableRows = [] \<rparr>"

section \<open>Properties\<close>

subsection \<open>Values and literals\<close>

lemma truthy_Some: "truthy (Some s) = (s \<noteq> [])"
  by (simp add: truthy_def)

lemma truthy_None: "truthy None = False"
  by (simp add: truthy_def)

lemma truthy_iff: "truthy v = (\<exists>s. v = Some s \<and> s \<noteq> [])"
  by (cases v) (simp_all add: truthy_def)

lemma js_Nil: "js [] = []"
  by (simp add: js_def)

lemma js_Cons: "js (c # s) = of_char c # js s"
  by (simp add: js_def)

subsection \<open>Splitting and joining\<close>

lemma split_not_Nil: "split sep s \<noteq> []"
  by (induction s) (auto split: list.splits)

lemma join_Cons: "ws \<noteq> [] \<Longrightarrow> join sep (w # ws) = w @ sep @ join sep ws"
  by (cases ws) simp_all

lemma join_split: "join [sep] (split sep s) = s"
proof (induction s)
  case Nil
  show ?case by simp
next
  case (Cons c cs)
  obtain w ws where w: "split sep cs = w # ws"
    using split_not_Nil [of sep cs] by (cases "split sep cs") auto
  show ?case
  proof (cases "c = sep")
    case True
    then show ?thesis using Cons.IH by (simp add: join_Cons split_not_Nil)
  next
    case False
    then show ?thesis using Cons.IH w by (cases ws) simp_all
  qed
qed

lemma split_no_sep: "p \<in> set (split sep s) \<Longrightarrow> sep \<notin> set p"
proof (induction s arbitrary: p)
  case Nil
  then show ?case by simp
next
  case (Cons c cs)
  then show ?case
    by (cases "split sep cs") (auto simp add: split_not_Nil split: if_splits)
qed

lemma pathParts_nonempty: "p \<in> set (pathParts u) \<Longrightarrow> p \<noteq> []"
  by (simp add: pathParts_def)

lemma pathParts_no_slash: "p \<in> set (pathParts u) \<Longrightarrow> 47 \<notin> set p"
  by (auto simp add: pathParts_def dest: split_no_sep)

lemma truthy_lastPart: "truthy (lastPart (pathParts u)) = (pathParts u \<noteq> [])"
proof (cases "pathParts u = []")
  case True
  then show ?thesis by (simp add: lastPart_def truthy_def)
next
  case False
  then have "last (pathParts u) \<in> set (pathParts u)" by simp
  then have "last (pathParts u) \<noteq> []" by (rule pathParts_nonempty)
  with False show ?thesis by (simp add: lastPart_def truthy_def)
qed

subsection \<open>The regular expression matcher\<close>

declare replaceAllFrom.simps [simp del]

lemma lastOr_Nil: "lastOr prev [] = prev"
  by (simp add: lastOr_def)

lemma lastOr_Cons: "lastOr prev (c # w) = lastOr (Some c) w"
  by (simp add: lastOr_def)

lemma lastOr_append: "lastOr prev (u @ w) = lastOr (lastOr prev u) w"
  by (simp add: lastOr_def)

lemma matchChars_SomeD:
  "matchChars ic ps prev inp = Some (p', r') \<Longrightarrow>
     \<exists>a. inp = a @ r' \<and> list_all2 (chEq ic) ps a \<and> p' = lastOr prev a"
proof (induction ps arbitrary: prev inp)
  case Nil
  then show ?case by (simp add: lastOr_Nil)
next
  case (Cons p ps)
  show ?case
  proof (cases inp)
    case Nil
    with Cons.prems show ?thesis by simp
  next
    case (Cons c cs)
    with Cons.prems have eq: "chEq ic p c" and m: "matchChars ic ps (Some c) cs = Some (p', r')"
      by (simp_all split: if_splits)
    from Cons.IH [OF m] obtain a where
      "cs = a @ r'" "list_all2 (chEq ic) ps a" "p' = lastOr (Some c) a" by blast
    with eq Cons show ?thesis
      by (intro exI [of _ "c # a"]) (simp add: lastOr_Cons)
  qed
qed

lemma matchChars_append:
  "list_all2 (chEq ic) ps a \<Longrightarrow> matchChars ic ps prev (a @ r) = Some (lastOr prev a, r)"
proof (induction ps arbitrary: prev a)
  case Nil
  then show ?case by (simp add: lastOr_Nil)
next
  case (Cons p ps)
  then obtain c cs where a: "a = c # cs" and eq: "chEq ic p c" and r: "list_all2 (chEq ic) ps cs"
    by (auto simp add: list_all2_Cons1)
  show ?case using Cons.IH [OF r] eq by (simp add: a lastOr_Cons)
qed

lemma matchClass_setD:
  "(p', r') \<in> set (matchClass P mn mx prev inp) \<Longrightarrow>
     \<exists>w. inp = w @ r' \<and> (\<forall>c \<in> set w. P c) \<and> mn \<le> length w
         \<and> (\<forall>m. mx = Some m \<longrightarrow> length w \<le> m) \<and> p' = lastOr prev w"
proof (induction inp arbitrary: mn mx prev)
  case Nil
  then show ?case by (auto simp add: lastOr_Nil split: if_splits)
next
  case (Cons c cs)
  from Cons.prems consider
      (further) "P c" "mx \<noteq> Some 0"
        "(p', r') \<in> set (matchClass P (mn - 1) (map_option (\<lambda>k. k - 1) mx) (Some c) cs)"
    | (stop) "mn = 0" "p' = prev" "r' = c # cs"
    by (auto split: if_splits)
  then show ?case
  proof cases
    case further
    from Cons.IH [OF further(3)] obtain w where w:
      "cs = w @ r'" "\<forall>c \<in> set w. P c" "mn - 1 \<le> length w"
      "\<forall>m. map_option (\<lambda>k. k - 1) mx = Some m \<longrightarrow> length w \<le> m"
      "p' = lastOr (Some c) w" by blast
    have "\<forall>m. mx = Some m \<longrightarrow> length (c # w) \<le> m"
      using w(4) further(2) by (cases mx) auto
    with w further(1) show ?thesis
      by (intro exI [of _ "c # w"]) (auto simp add: lastOr_Cons)
  next
    case stop
    then show ?thesis by (intro exI [of _ "[]"]) (simp add: lastOr_Nil)
  qed
qed

lemma matchClass_setI:
  "(\<forall>c \<in> set w. P c) \<Longrightarrow> mn \<le> length w \<Longrightarrow> (\<forall>m. mx = Some m \<longrightarrow> length w \<le> m) \<Longrightarrow>
     (lastOr prev w, r) \<in> set (matchClass P mn mx prev (w @ r))"
proof (induction w arbitrary: mn mx prev)
  case Nil
  then show ?case by (cases r) (simp_all add: lastOr_Nil)
next
  case (Cons c w)
  have "(lastOr (Some c) w, r) \<in> set (matchClass P (mn - 1) (map_option (\<lambda>k. k - 1) mx) (Some c) (w @ r))"
    using Cons.prems by (intro Cons.IH) auto
  moreover have "mx \<noteq> Some 0" using Cons.prems(3) by auto
  ultimately show ?case using Cons.prems(1) by (simp add: lastOr_Cons)
qed

text \<open>Greedy: the first state reads the longest run the bounds allow.\<close>

lemma matchClass_first:
  "(\<forall>c \<in> set w. P c) \<Longrightarrow> mn \<le> length w \<Longrightarrow> (\<forall>m. mx = Some m \<longrightarrow> length w \<le> m) \<Longrightarrow>
   r = [] \<or> \<not> P (hd r) \<or> mx = Some (length w) \<Longrightarrow>
     \<exists>ms. matchClass P mn mx prev (w @ r) = (lastOr prev w, r) # ms"
proof (induction w arbitrary: mn mx prev)
  case Nil
  then show ?case by (cases r) (auto simp add: lastOr_Nil)
next
  case (Cons c w)
  have "\<exists>ms. matchClass P (mn - 1) (map_option (\<lambda>k. k - 1) mx) (Some c) (w @ r)
          = (lastOr (Some c) w, r) # ms"
    using Cons.prems by (intro Cons.IH) auto
  moreover have "mx \<noteq> Some 0" using Cons.prems(3) by auto
  ultimately show ?case using Cons.prems(1) by (auto simp add: lastOr_Cons)
qed

lemma execFrom_miss:
  "rmatch ic r (prev, c # cs, None) = [] \<Longrightarrow>
     execFrom ic r prev (c # cs) = map_option (\<lambda>(sk, st). (c # sk, st)) (execFrom ic r (Some c) cs)"
  by simp

lemma execFrom_hit:
  "rmatch ic r (prev, inp, None) = st # ms \<Longrightarrow> execFrom ic r prev inp = Some ([], st)"
  by (cases inp) simp_all

lemma execFrom_append:
  "(\<forall>j < length sk. rmatch ic r (lastOr prev (take j sk), drop j sk @ sfx, None) = []) \<Longrightarrow>
   execFrom ic r prev (sk @ sfx) = map_option (\<lambda>(s, st). (sk @ s, st)) (execFrom ic r (lastOr prev sk) sfx)"
proof (induction sk arbitrary: prev)
  case Nil
  show ?case by (simp add: lastOr_Nil option.map_ident case_prod_unfold)
next
  case (Cons c sk)
  have here: "rmatch ic r (prev, c # sk @ sfx, None) = []"
    using Cons.prems [rule_format, of 0] by (simp add: lastOr_Nil)
  have "\<forall>j < length sk. rmatch ic r (lastOr (Some c) (take j sk), drop j sk @ sfx, None) = []"
  proof (intro allI impI)
    fix j assume "j < length sk"
    then show "rmatch ic r (lastOr (Some c) (take j sk), drop j sk @ sfx, None) = []"
      using Cons.prems [rule_format, of "Suc j"] by (simp add: lastOr_Cons)
  qed
  from Cons.IH [OF this] here show ?case
    by (simp add: lastOr_Cons option.map_comp comp_def case_prod_unfold)
qed

lemma execFrom_SomeD:
  "execFrom ic r prev inp = Some (sk, st) \<Longrightarrow>
     \<exists>sfx ms. inp = sk @ sfx \<and> rmatch ic r (lastOr prev sk, sfx, None) = st # ms
        \<and> (\<forall>j < length sk. rmatch ic r (lastOr prev (take j sk), drop j sk @ sfx, None) = [])"
proof (induction inp arbitrary: prev sk)
  case Nil
  then show ?case by (auto simp add: lastOr_Nil split: list.splits)
next
  case (Cons c cs)
  show ?case
  proof (cases "rmatch ic r (prev, c # cs, None)")
    case Nil
    with Cons.prems obtain sk' where sk: "sk = c # sk'"
      and e: "execFrom ic r (Some c) cs = Some (sk', st)" by auto
    from Cons.IH [OF e] obtain sfx ms where t:
      "cs = sk' @ sfx" "rmatch ic r (lastOr (Some c) sk', sfx, None) = st # ms"
      "\<forall>j < length sk'. rmatch ic r (lastOr (Some c) (take j sk'), drop j sk' @ sfx, None) = []"
      by blast
    have "\<forall>j < length sk. rmatch ic r (lastOr prev (take j sk), drop j sk @ sfx, None) = []"
    proof (intro allI impI)
      fix j assume j: "j < length sk"
      show "rmatch ic r (lastOr prev (take j sk), drop j sk @ sfx, None) = []"
      proof (cases j)
        case 0
        then show ?thesis using Nil t(1) sk by (simp add: lastOr_Nil)
      next
        case (Suc i)
        then show ?thesis using t(3) j sk by (simp add: lastOr_Cons)
      qed
    qed
    with t(1,2) sk show ?thesis by (auto simp add: lastOr_Cons)
  next
    case (Cons st' more)
    with Cons.prems have "sk = []" "st = st'" by auto
    with Cons show ?thesis by (auto simp add: lastOr_Nil)
  qed
qed

lemma execFrom_NoneD:
  "execFrom ic r prev (u @ sfx) = None \<Longrightarrow> rmatch ic r (lastOr prev u, sfx, None) = []"
proof (induction u arbitrary: prev)
  case Nil
  then show ?case by (cases sfx) (auto simp add: lastOr_Nil split: list.splits)
next
  case (Cons c u)
  then show ?case by (auto simp add: lastOr_Cons split: list.splits)
qed

subsection \<open>The first match\<close>

lemma firstIs_RSeq:
  "firstIs ic a st m \<Longrightarrow> firstIs ic b m st' \<Longrightarrow> firstIs ic (RSeq a b) st st'"
  by (auto simp add: firstIs_def)

lemma firstIs_RChars:
  "list_all2 (chEq ic) ps a \<Longrightarrow> firstIs ic (RChars ps) (prev, a @ r, cap) (lastOr prev a, r, cap)"
  by (simp add: firstIs_def matchChars_append)

lemma firstIs_RClass:
  assumes "\<forall>c \<in> set w. inClass ic items c" "mn \<le> length w"
    "\<forall>m. mx = Some m \<longrightarrow> length w \<le> m"
    "r = [] \<or> \<not> inClass ic items (hd r) \<or> mx = Some (length w)"
  shows "firstIs ic (RClass items mn mx) (prev, w @ r, cap) (lastOr prev w, r, cap)"
  using matchClass_first [OF assms, of prev] by (auto simp add: firstIs_def)

lemma firstIs_RGroup:
  "firstIs ic a (prev, inp, cap) (p', r', c') \<Longrightarrow>
     firstIs ic (RGroup a) (prev, inp, cap) (p', r', Some (take (length inp - length r') inp))"
  by (auto simp add: firstIs_def)

lemma firstIs_ROpt_take:
  "firstIs ic a (prev, inp, cap) (p', r', c') \<Longrightarrow> length r' \<noteq> length inp \<Longrightarrow>
     firstIs ic (ROpt a) (prev, inp, cap) (p', r', c')"
  by (auto simp add: firstIs_def)

lemma firstIs_ROpt_skip:
  "rmatch ic a (prev, inp, cap) = [] \<Longrightarrow> firstIs ic (ROpt a) (prev, inp, cap) (prev, inp, cap)"
  by (simp add: firstIs_def)

lemma firstIs_RWordB:
  "atWordBoundary prev inp \<Longrightarrow> firstIs ic RWordB (prev, inp, cap) (prev, inp, cap)"
  by (simp add: firstIs_def)

lemma firstIs_RAlt_left:
  "firstIs ic a st st' \<Longrightarrow> firstIs ic (RAlt a b) st st'"
  by (auto simp add: firstIs_def)

lemma firstIs_not_Nil: "firstIs ic r st st' \<Longrightarrow> rmatch ic r st \<noteq> []"
  by (auto simp add: firstIs_def)

lemma rmatch_RAlt_not_Nil:
  "rmatch ic a st \<noteq> [] \<or> rmatch ic b st \<noteq> [] \<Longrightarrow> rmatch ic (RAlt a b) st \<noteq> []"
  by auto

lemma firstIs_execFrom:
  assumes "firstIs ic r (lastOr prev u, v, None) st"
    and "\<forall>j < length u. rmatch ic r (lastOr prev (take j u), drop j u @ v, None) = []"
  shows "execFrom ic r prev (u @ v) = Some (u, st)"
proof -
  from assms(1) obtain ms where "rmatch ic r (lastOr prev u, v, None) = st # ms"
    by (auto simp add: firstIs_def)
  from execFrom_hit [OF this] execFrom_append [OF assms(2)] show ?thesis by simp
qed

lemma execFrom_found:
  "rmatch ic r (lastOr prev u, v, None) \<noteq> [] \<Longrightarrow> execFrom ic r prev (u @ v) \<noteq> None"
  using execFrom_NoneD [of ic r prev u v] by blast

text \<open>Ignoring case is comparing the ASCII lower case.\<close>

lemma chEq_ignoreCase: "chEq True p c = (asciiLower c = asciiLower p)"
  by (auto simp add: chEq_def asciiUpper_def asciiLower_def)

lemma list_all2_chEq_ignoreCase:
  "list_all2 (chEq True) ps a = (map asciiLower a = map asciiLower ps)"
proof (induction ps arbitrary: a)
  case Nil
  show ?case by auto
next
  case (Cons p ps)
  show ?case
  proof (cases a)
    case Nil
    then show ?thesis by simp
  next
    case (Cons c cs)
    then show ?thesis using Cons.IH [of cs] by (simp add: chEq_ignoreCase)
  qed
qed

lemma asciiLower_isSpace: "isSpace (asciiLower c) = isSpace c"
  by (auto simp add: isSpace_def asciiLower_def)

lemma asciiLower_isWordChar: "isWordChar (asciiLower c) = isWordChar c"
  by (auto simp add: isWordChar_def asciiLower_def)

subsection \<open>The transaction code pattern\<close>

lemma lastOr_eq_None: "(lastOr prev w = None) = (prev = None \<and> w = [])"
  by (simp add: lastOr_def)

lemma inClass_alnum:
  "inClass False [CRange 65 90, CRange 97 122, CRange 48 57] = isAsciiAlnum"
  by (rule ext) (auto simp add: inClass_def isAsciiAlnum_def)

lemma rmatch_transaction_code:
  "(rmatch False rxTransactionCode (prev, inp, None) \<noteq> [])
     = (prev = None \<and> length inp = 10 \<and> (\<forall>c \<in> set inp. isAsciiAlnum c))"
proof
  assume "rmatch False rxTransactionCode (prev, inp, None) \<noteq> []"
  then obtain st where "st \<in> set (rmatch False rxTransactionCode (prev, inp, None))"
    by (cases "rmatch False rxTransactionCode (prev, inp, None)") auto
  then obtain p' where p: "prev = None"
    and m: "(p', []) \<in> set (matchClass isAsciiAlnum 10 (Some 10) prev inp)"
    by (auto simp add: rxTransactionCode_def inClass_alnum split: if_splits)
  from matchClass_setD [OF m] have "length inp = 10" "\<forall>c \<in> set inp. isAsciiAlnum c"
    by auto
  with p show "prev = None \<and> length inp = 10 \<and> (\<forall>c \<in> set inp. isAsciiAlnum c)" by simp
next
  assume h: "prev = None \<and> length inp = 10 \<and> (\<forall>c \<in> set inp. isAsciiAlnum c)"
  then have "\<exists>ms. matchClass isAsciiAlnum 10 (Some 10) prev (inp @ []) = (lastOr prev inp, []) # ms"
    by (intro matchClass_first) auto
  with h show "rmatch False rxTransactionCode (prev, inp, None) \<noteq> []"
    by (auto simp add: rxTransactionCode_def inClass_alnum)
qed

lemma regexTest_transaction_code:
  "regexTest False rxTransactionCode tx = (length tx = 10 \<and> (\<forall>c \<in> set tx. isAsciiAlnum c))"
proof
  assume "regexTest False rxTransactionCode tx"
  then obtain sk st where "execFrom False rxTransactionCode None tx = Some (sk, st)"
    by (auto simp add: regexTest_def)
  from execFrom_SomeD [OF this] obtain sfx ms where s: "tx = sk @ sfx"
    and m: "rmatch False rxTransactionCode (lastOr None sk, sfx, None) = st # ms" by blast
  from m have "rmatch False rxTransactionCode (lastOr None sk, sfx, None) \<noteq> []" by simp
  then have "sk = []" "length sfx = 10" "\<forall>c \<in> set sfx. isAsciiAlnum c"
    by (simp_all add: rmatch_transaction_code lastOr_eq_None)
  with s show "length tx = 10 \<and> (\<forall>c \<in> set tx. isAsciiAlnum c)" by simp
next
  assume "length tx = 10 \<and> (\<forall>c \<in> set tx. isAsciiAlnum c)"
  then have "rmatch False rxTransactionCode (None, tx, None) \<noteq> []"
    by (simp add: rmatch_transaction_code)
  then obtain st ms where "rmatch False rxTransactionCode (None, tx, None) = st # ms"
    by (cases "rmatch False rxTransactionCode (None, tx, None)") auto
  from execFrom_hit [OF this] show "regexTest False rxTransactionCode tx"
    by (simp add: regexTest_def)
qed

subsection \<open>What cleanText computes\<close>

lemma replaceAllFrom_Nil:
  "rmatch ic r (prev, [], None) = [] \<Longrightarrow> replaceAllFrom ic r rep prev [] = []"
  by (simp add: replaceAllFrom.simps [of ic r rep prev "[]"])

lemma replaceAllFrom_miss:
  assumes "rmatch ic r (prev, c # cs, None) = []"
  shows "replaceAllFrom ic r rep prev (c # cs) = c # replaceAllFrom ic r rep (Some c) cs"
proof (cases "execFrom ic r (Some c) cs")
  case None
  with assms show ?thesis
    by (simp add: replaceAllFrom.simps [of ic r rep prev "c # cs"]
          replaceAllFrom.simps [of ic r rep "Some c" cs])
next
  case (Some m)
  obtain sk p' r' cap where m: "m = (sk, p', r', cap)" by (cases m) auto
  with Some assms show ?thesis
    by (simp add: replaceAllFrom.simps [of ic r rep prev "c # cs"]
          replaceAllFrom.simps [of ic r rep "Some c" cs] split: list.splits)
qed

lemma replaceAllFrom_hit:
  assumes "rmatch ic r (prev, inp, None) = (p', r', cap) # ms" and "length r' < length inp"
  shows "replaceAllFrom ic r rep prev inp = rep @ replaceAllFrom ic r rep p' r'"
  using assms execFrom_hit [OF assms(1)]
  by (simp add: replaceAllFrom.simps [of ic r rep prev inp])

lemma replaceAll_nbsp_from:
  "replaceAllFrom False rxNbsp [32] prev s = map nbspToSpace s"
proof (induction s arbitrary: prev)
  case Nil
  show ?case by (simp add: replaceAllFrom_Nil rxNbsp_def)
next
  case (Cons c cs)
  show ?case
  proof (cases "c = 160")
    case True
    then have "rmatch False rxNbsp (prev, c # cs, None) = (Some c, cs, None) # []"
      by (simp add: rxNbsp_def chEq_def)
    from replaceAllFrom_hit [OF this] Cons.IH True show ?thesis
      by (simp add: nbspToSpace_def)
  next
    case False
    then have "rmatch False rxNbsp (prev, c # cs, None) = []"
      by (simp add: rxNbsp_def chEq_def)
    from replaceAllFrom_miss [OF this] Cons.IH False show ?thesis
      by (simp add: nbspToSpace_def)
  qed
qed

lemma inClass_space: "inClass ic [CSpace] = isSpace"
proof (rule ext)
  fix c
  have "isSpace (asciiUpper c) = isSpace c"
    by (auto simp add: isSpace_def asciiUpper_def)
  moreover have "isSpace (asciiLower c) = isSpace c"
    by (auto simp add: isSpace_def asciiLower_def)
  ultimately show "inClass ic [CSpace] c = isSpace c"
    by (simp add: inClass_def)
qed

lemma rmatch_spaces_first:
  assumes "isSpace c"
  shows "\<exists>p' ms. rmatch ic rxSpaces (prev, c # cs, None) = (p', dropWhile isSpace cs, None) # ms"
proof -
  have "\<exists>ms. matchClass isSpace 1 None prev ((c # takeWhile isSpace cs) @ dropWhile isSpace cs)
      = (lastOr prev (c # takeWhile isSpace cs), dropWhile isSpace cs) # ms"
  proof (rule matchClass_first)
    show "\<forall>x \<in> set (c # takeWhile isSpace cs). isSpace x"
      using assms by (auto dest: set_takeWhileD)
    show "dropWhile isSpace cs = [] \<or> \<not> isSpace (hd (dropWhile isSpace cs))
        \<or> None = Some (length (c # takeWhile isSpace cs))"
      using hd_dropWhile [of isSpace cs] by auto
  qed simp_all
  then show ?thesis using assms by (auto simp add: rxSpaces_def inClass_space)
qed

lemma replaceAll_spaces_from:
  "replaceAllFrom ic rxSpaces [32] prev s = collapseSpaces s"
proof (induction s arbitrary: prev rule: collapseSpaces.induct)
  case 1
  show ?case by (simp add: replaceAllFrom_Nil rxSpaces_def)
next
  case (2 c cs)
  show ?case
  proof (cases "isSpace c")
    case True
    from rmatch_spaces_first [OF True] obtain p' ms where
      m: "rmatch ic rxSpaces (prev, c # cs, None) = (p', dropWhile isSpace cs, None) # ms"
      by blast
    have "length (dropWhile isSpace cs) < length (c # cs)"
      by (simp add: length_dropWhile_le less_Suc_eq_le)
    from replaceAllFrom_hit [OF m this] "2.IH"(1) [OF True] True show ?thesis by simp
  next
    case False
    then have "rmatch ic rxSpaces (prev, c # cs, None) = []"
      by (simp add: rxSpaces_def inClass_space)
    from replaceAllFrom_miss [OF this] "2.IH"(2) [OF False] False show ?thesis by simp
  qed
qed

lemma inClass_colon: "inClass False [CChar 58, CChar 65306] = isColon"
  by (rule ext) (auto simp add: inClass_def isColon_def)

lemma rmatch_colons_set:
  "st \<in> set (rmatch False rxTrailingColons (prev, inp, None)) \<Longrightarrow>
     inp \<noteq> [] \<and> (\<forall>c \<in> set inp. isColon c) \<and> fst (snd st) = []"
proof -
  assume "st \<in> set (rmatch False rxTrailingColons (prev, inp, None))"
  then obtain p' where "(p', []) \<in> set (matchClass isColon 1 None prev inp)" "fst (snd st) = []"
    by (auto simp add: rxTrailingColons_def inClass_colon split: if_splits)
  with matchClass_setD [OF this(1)] show ?thesis by auto
qed

lemma rmatch_colons_all:
  assumes "inp \<noteq> []" "\<forall>c \<in> set inp. isColon c"
  shows "rmatch False rxTrailingColons (prev, inp, None) \<noteq> []"
proof -
  have "\<exists>ms. matchClass isColon 1 None prev (inp @ []) = (lastOr prev inp, []) # ms"
    using assms by (intro matchClass_first) (auto simp add: Suc_le_eq)
  then show ?thesis by (auto simp add: rxTrailingColons_def inClass_colon)
qed

lemma stripTrailingColons_all: "\<forall>c \<in> set s. isColon c \<Longrightarrow> stripTrailingColons s = []"
  by (simp add: stripTrailingColons_def)

lemma stripTrailingColons_Cons:
  "\<not> (\<forall>x \<in> set (c # cs). isColon x) \<Longrightarrow>
     stripTrailingColons (c # cs) = c # stripTrailingColons cs"
  by (auto simp add: stripTrailingColons_def dropWhile_append)

lemma replaceFirst_colons_from:
  "(case execFrom False rxTrailingColons prev s of
      None \<Rightarrow> s | Some (sk, (p', r', cap)) \<Rightarrow> sk @ [] @ r') = stripTrailingColons s"
proof (induction s arbitrary: prev)
  case Nil
  have "rmatch False rxTrailingColons (prev, [], None) = []"
    using rmatch_colons_set [of _ prev "[]"]
    by (cases "rmatch False rxTrailingColons (prev, [], None)") auto
  then show ?case by (simp add: stripTrailingColons_def)
next
  case (Cons c cs)
  show ?case
  proof (cases "\<forall>x \<in> set (c # cs). isColon x")
    case True
    then have "rmatch False rxTrailingColons (prev, c # cs, None) \<noteq> []"
      by (intro rmatch_colons_all) auto
    then obtain st ms where m: "rmatch False rxTrailingColons (prev, c # cs, None) = st # ms"
      by (cases "rmatch False rxTrailingColons (prev, c # cs, None)") auto
    then have "st \<in> set (rmatch False rxTrailingColons (prev, c # cs, None))" by simp
    from rmatch_colons_set [OF this] have "fst (snd st) = []" by simp
    with execFrom_hit [OF m] stripTrailingColons_all [OF True] show ?thesis
      by (cases st) (auto simp add: case_prod_unfold)
  next
    case False
    have "rmatch False rxTrailingColons (prev, c # cs, None) = []"
      using rmatch_colons_set [of _ prev "c # cs"] False
      by (cases "rmatch False rxTrailingColons (prev, c # cs, None)") auto
    from execFrom_miss [OF this] Cons.IH [of "Some c"] stripTrailingColons_Cons [OF False]
    show ?thesis
      by (cases "execFrom False rxTrailingColons (Some c) cs") (auto simp add: case_prod_unfold)
  qed
qed

lemma stringOrEmpty_Some: "stringOrEmpty (Some s) = s"
  by (simp add: stringOrEmpty_def jsOr_def truthy_def)

lemma stringOrEmpty_None: "stringOrEmpty None = []"
  by (simp add: stringOrEmpty_def jsOr_def truthy_def)

lemma cleanText_eq:
  "cleanText t = trim (stripTrailingColons (collapseSpaces (map nbspToSpace (stringOrEmpty t))))"
  using replaceFirst_colons_from [where prev = None]
  by (simp add: cleanText_def replaceAll_def replaceAll_nbsp_from replaceAll_spaces_from
        replaceFirst_def)

subsection \<open>The normal form of cleaned text\<close>

lemma collapseSpaces_head:
  "\<not> isSpace c \<Longrightarrow> collapseSpaces (c # cs) = c # collapseSpaces cs"
  by simp

lemma collapseSpaces_first_not_space:
  "s = [] \<or> \<not> isSpace (hd s) \<Longrightarrow> collapseSpaces s = [] \<or> \<not> isSpace (hd (collapseSpaces s))"
  by (cases s) auto

lemma singleSpaced_Cons:
  "singleSpaced (c # s) = ((isSpace c \<longrightarrow> c = 32 \<and> (s = [] \<or> \<not> isSpace (hd s))) \<and> singleSpaced s)"
  by (cases s) auto

lemma isSpace_32: "isSpace 32"
  by (simp add: isSpace_def)

lemma singleSpaced_collapseSpaces: "singleSpaced (collapseSpaces s)"
proof (induction s rule: collapseSpaces.induct)
  case 1
  show ?case by simp
next
  case (2 c cs)
  show ?case
  proof (cases "isSpace c")
    case True
    have "collapseSpaces (dropWhile isSpace cs) = []
        \<or> \<not> isSpace (hd (collapseSpaces (dropWhile isSpace cs)))"
      using hd_dropWhile [of isSpace cs] by (intro collapseSpaces_first_not_space) auto
    with "2.IH"(1) [OF True] True show ?thesis
      by (simp add: singleSpaced_Cons)
  next
    case False
    with "2.IH"(2) [OF False] show ?thesis by (simp add: singleSpaced_Cons)
  qed
qed

lemma collapseSpaces_id: "singleSpaced s \<Longrightarrow> collapseSpaces s = s"
proof (induction s)
  case Nil
  show ?case by simp
next
  case (Cons c s)
  then have s: "collapseSpaces s = s" by (simp add: singleSpaced_Cons)
  show ?case
  proof (cases "isSpace c")
    case True
    with Cons.prems have c: "c = 32" and n: "s = [] \<or> \<not> isSpace (hd s)"
      by (simp_all add: singleSpaced_Cons)
    from n have "dropWhile isSpace s = s" by (cases s) auto
    with True c s show ?thesis by simp
  next
    case False
    with s show ?thesis by simp
  qed
qed

lemma singleSpaced_spaces: "singleSpaced s \<Longrightarrow> c \<in> set s \<Longrightarrow> isSpace c \<Longrightarrow> c = 32"
  by (induction s) (auto simp add: singleSpaced_Cons)

lemma nbspToSpace_id: "singleSpaced s \<Longrightarrow> map nbspToSpace s = s"
proof -
  assume h: "singleSpaced s"
  have "160 \<notin> set s"
  proof
    assume "160 \<in> set s"
    from singleSpaced_spaces [OF h this] show False by (simp add: isSpace_def)
  qed
  then have "\<forall>c \<in> set s. nbspToSpace c = c" by (auto simp add: nbspToSpace_def)
  then show ?thesis by (simp add: map_idI)
qed

lemma singleSpaced_append_left: "singleSpaced (u @ v) \<Longrightarrow> singleSpaced u"
proof (induction u)
  case Nil
  show ?case by simp
next
  case (Cons c u)
  then show ?case by (cases u) (auto simp add: singleSpaced_Cons)
qed

lemma singleSpaced_append_right: "singleSpaced (u @ v) \<Longrightarrow> singleSpaced v"
  by (induction u) (auto simp add: singleSpaced_Cons)

lemma rev_dropWhile_rev: "rev (dropWhile P (rev s)) @ rev (takeWhile P (rev s)) = s"
proof -
  have "rev (takeWhile P (rev s) @ dropWhile P (rev s)) = s" by simp
  then show ?thesis by (simp only: rev_append)
qed

lemma singleSpaced_stripTrailingColons: "singleSpaced s \<Longrightarrow> singleSpaced (stripTrailingColons s)"
  using rev_dropWhile_rev [of isColon s] singleSpaced_append_left
  by (metis stripTrailingColons_def)

lemma singleSpaced_trim: "singleSpaced s \<Longrightarrow> singleSpaced (trim s)"
proof -
  assume h: "singleSpaced s"
  have "takeWhile isSpace s @ dropWhile isSpace s = s" by simp
  with h have "singleSpaced (dropWhile isSpace s)"
    using singleSpaced_append_right by metis
  with rev_dropWhile_rev [of isSpace "dropWhile isSpace s"] show ?thesis
    using singleSpaced_append_left by (metis trim_def)
qed

lemma trim_ends:
  "trim s = [] \<or> (\<not> isSpace (hd (trim s)) \<and> \<not> isSpace (last (trim s)))"
proof (cases "trim s = []")
  case True
  then show ?thesis by simp
next
  case False
  define y where "y = dropWhile isSpace s"
  define z where "z = dropWhile isSpace (rev y)"
  have t: "trim s = rev z" by (simp add: trim_def y_def z_def)
  with False have z: "z \<noteq> []" by simp
  then have "\<not> isSpace (hd z)" unfolding z_def by (rule hd_dropWhile)
  then have l: "\<not> isSpace (last (trim s))" using z by (simp add: t last_rev)
  have "rev z @ rev (takeWhile isSpace (rev y)) = y"
    unfolding z_def by (rule rev_dropWhile_rev)
  then have "hd y = hd (rev z)" "y \<noteq> []" using z by (metis hd_append2 rev_is_Nil_conv, auto)
  moreover have "\<not> isSpace (hd y)" using \<open>y \<noteq> []\<close> unfolding y_def by (rule hd_dropWhile)
  ultimately have "\<not> isSpace (hd (trim s))" by (simp add: t)
  with l show ?thesis by simp
qed

lemma rev_Cons_last: "rev s = x # xs \<Longrightarrow> last s = x"
proof -
  assume "rev s = x # xs"
  then have "s = rev (x # xs)" by (metis rev_rev_ident)
  then show ?thesis by simp
qed

lemma trim_id: "s = [] \<or> (\<not> isSpace (hd s) \<and> \<not> isSpace (last s)) \<Longrightarrow> trim s = s"
proof (cases s)
  case Nil
  then show ?thesis by (simp add: trim_def)
next
  case (Cons c cs)
  assume "s = [] \<or> (\<not> isSpace (hd s) \<and> \<not> isSpace (last s))"
  with Cons have h: "\<not> isSpace (hd s)" and l: "\<not> isSpace (last s)" and n: "s \<noteq> []" by auto
  from h Cons have "dropWhile isSpace s = s" by simp
  moreover have "dropWhile isSpace (rev s) = rev s"
  proof (cases "rev s")
    case Nil
    then show ?thesis by simp
  next
    case (Cons x xs)
    with l rev_Cons_last [OF Cons] show ?thesis by simp
  qed
  ultimately show ?thesis by (simp add: trim_def)
qed

lemma length_trim: "length (trim s) \<le> length s"
proof -
  have "length (trim s) = length (dropWhile isSpace (rev (dropWhile isSpace s)))"
    by (simp add: trim_def)
  also have "\<dots> \<le> length (rev (dropWhile isSpace s))" by (rule length_dropWhile_le)
  also have "\<dots> = length (dropWhile isSpace s)" by simp
  also have "\<dots> \<le> length s" by (rule length_dropWhile_le)
  finally show ?thesis .
qed

lemma stripTrailingColons_id:
  "s = [] \<or> \<not> isColon (last s) \<Longrightarrow> stripTrailingColons s = s"
proof (cases "rev s")
  case Nil
  then show ?thesis by (simp add: stripTrailingColons_def)
next
  case (Cons x xs)
  assume "s = [] \<or> \<not> isColon (last s)"
  with Cons rev_Cons_last [OF Cons] have "\<not> isColon x" by auto
  with Cons have "dropWhile isColon (rev s) = rev s" by simp
  then show ?thesis by (simp add: stripTrailingColons_def)
qed

lemma stripTrailingColons_shorter:
  "s \<noteq> [] \<Longrightarrow> isColon (last s) \<Longrightarrow> length (stripTrailingColons s) < length s"
proof -
  assume n: "s \<noteq> []" and c: "isColon (last s)"
  then obtain x xs where r: "rev s = x # xs" by (cases "rev s") auto
  with c rev_Cons_last [OF r] have "isColon x" by simp
  with r have "length (dropWhile isColon (rev s)) \<le> length xs"
    by (simp add: length_dropWhile_le)
  also have "\<dots> < length s" using r by (metis length_Cons length_rev lessI)
  finally show ?thesis by (simp add: stripTrailingColons_def)
qed

text \<open>The result of \<open>cleanText\<close> is in normal form.\<close>

lemma cleanText_singleSpaced: "singleSpaced (cleanText t)"
  by (simp add: cleanText_eq singleSpaced_trim singleSpaced_stripTrailingColons
        singleSpaced_collapseSpaces)

lemma cleanText_ends:
  "cleanText t = [] \<or> (\<not> isSpace (hd (cleanText t)) \<and> \<not> isSpace (last (cleanText t)))"
  unfolding cleanText_eq by (rule trim_ends)

lemma cleanText_twice:
  "cleanText (Some (cleanText t)) = trim (stripTrailingColons (cleanText t))"
  by (simp add: cleanText_eq [of "Some (cleanText t)"] stringOrEmpty_Some
        nbspToSpace_id collapseSpaces_id cleanText_singleSpaced)

subsection \<open>The tokens of cleaned text\<close>

lemma split_no_sep_id: "sep \<notin> set u \<Longrightarrow> split sep u = [u]"
  by (induction u) auto

lemma split_append_sep: "sep \<notin> set u \<Longrightarrow> split sep (u @ sep # v) = u # split sep v"
  by (induction u) auto

lemma words_split_step:
  assumes "32 \<notin> set u" "u \<noteq> []" "v = [] \<or> hd v = 32"
  shows "filter (\<lambda>p. p \<noteq> []) (split 32 (u @ v)) = u # filter (\<lambda>p. p \<noteq> []) (split 32 v)"
proof (cases v)
  case Nil
  with assms show ?thesis by (simp add: split_no_sep_id)
next
  case (Cons d v')
  with assms have "d = 32" by simp
  with Cons assms show ?thesis by (simp add: split_append_sep)
qed

lemma words_split:
  "(\<forall>c \<in> set s. isSpace c \<longrightarrow> c = 32) \<Longrightarrow> filter (\<lambda>p. p \<noteq> []) (split 32 s) = tokensOf s"
proof (induction s rule: tokensOf.induct)
  case 1
  show ?case by simp
next
  case (2 c cs)
  show ?case
  proof (cases "isSpace c")
    case True
    with "2.prems" have "c = 32" by simp
    have p: "\<forall>x \<in> set cs. isSpace x \<longrightarrow> x = 32" using "2.prems" by simp
    have "filter (\<lambda>p. p \<noteq> []) (split 32 cs) = tokensOf cs"
      using p by (rule "2.IH"(1) [OF True])
    with True \<open>c = 32\<close> show ?thesis by simp
  next
    case False
    define u where "u = takeWhile (\<lambda>x. \<not> isSpace x) (c # cs)"
    define v where "v = dropWhile (\<lambda>x. \<not> isSpace x) cs"
    have uv: "c # cs = u @ v" using False by (simp add: u_def v_def)
    have u1: "u \<noteq> []" using False by (simp add: u_def)
    have "\<forall>x \<in> set u. \<not> isSpace x" unfolding u_def by (auto dest: set_takeWhileD)
    then have u2: "32 \<notin> set u" using isSpace_32 by auto
    have "v = [] \<or> isSpace (hd v)" using hd_dropWhile [of "\<lambda>x. \<not> isSpace x" cs]
      by (auto simp add: v_def)
    moreover have "set v \<subseteq> set (c # cs)" using uv by auto
    ultimately have v1: "v = [] \<or> hd v = 32"
    proof (cases v)
      case Nil
      then show ?thesis by simp
    next
      case (Cons d v')
      assume "v = [] \<or> isSpace (hd v)" "set v \<subseteq> set (c # cs)"
      with Cons have "isSpace d" "d \<in> set (c # cs)" by auto
      with "2.prems" have "d = 32" by blast
      with Cons show ?thesis by simp
    qed
    have "\<forall>x \<in> set v. isSpace x \<longrightarrow> x = 32" using "2.prems" \<open>set v \<subseteq> set (c # cs)\<close> by auto
    then have "filter (\<lambda>p. p \<noteq> []) (split 32 v) = tokensOf v"
      unfolding v_def by (rule "2.IH"(2) [OF False])
    moreover have "filter (\<lambda>p. p \<noteq> []) (split 32 (c # cs)) = u # filter (\<lambda>p. p \<noteq> []) (split 32 v)"
      using words_split_step [OF u2 u1 v1] by (simp only: uv)
    moreover have "tokensOf (c # cs) = u # tokensOf v"
      using False by (simp add: u_def v_def)
    ultimately show ?thesis by simp
  qed
qed

lemma split_pieces_nonempty:
  "singleSpaced s \<Longrightarrow> s = [] \<or> last s \<noteq> 32 \<Longrightarrow>
     [] \<notin> set (tl (split 32 s)) \<and> (s \<noteq> [] \<and> hd s \<noteq> 32 \<longrightarrow> hd (split 32 s) \<noteq> [])"
proof (induction s)
  case Nil
  show ?case by simp
next
  case (Cons c cs)
  from Cons.prems have sp: "singleSpaced cs" and l: "cs = [] \<or> last cs \<noteq> 32"
    by (auto simp add: singleSpaced_Cons split: if_splits)
  note ih = Cons.IH [OF sp l]
  obtain w ws where w: "split 32 cs = w # ws"
    using split_not_Nil [of 32 cs] by (cases "split 32 cs") auto
  show ?case
  proof (cases "c = 32")
    case True
    with Cons.prems have "cs \<noteq> []" "\<not> isSpace (hd cs)"
      by (auto simp add: singleSpaced_Cons isSpace_32)
    then have "cs \<noteq> [] \<and> hd cs \<noteq> 32" using isSpace_32 by auto
    with ih w True show ?thesis by auto
  next
    case False
    with ih w show ?thesis by auto
  qed
qed

lemma split_cleaned_nonempty:
  assumes "singleSpaced s" "s \<noteq> []" "\<not> isSpace (hd s)" "\<not> isSpace (last s)"
  shows "[] \<notin> set (split 32 s)"
proof -
  have "hd s \<noteq> 32" "last s \<noteq> 32" using assms(3,4) isSpace_32 by auto
  with split_pieces_nonempty [OF assms(1)] assms(2)
  have "[] \<notin> set (tl (split 32 s))" "hd (split 32 s) \<noteq> []" by auto
  then show ?thesis using split_not_Nil [of 32 s] by (cases "split 32 s") auto
qed

lemma tokensOf_cleanText:
  "tokensOf (cleanText t) = filter (\<lambda>p. p \<noteq> []) (split 32 (cleanText t))"
  using singleSpaced_spaces [OF cleanText_singleSpaced [of t]]
  by (intro words_split [symmetric]) auto

lemma join_tokensOf_cleanText: "join [32] (tokensOf (cleanText t)) = cleanText t"
proof (cases "cleanText t = []")
  case True
  then show ?thesis by simp
next
  case False
  with cleanText_ends [of t] have "[] \<notin> set (split 32 (cleanText t))"
    by (intro split_cleaned_nonempty cleanText_singleSpaced) auto
  then have "filter (\<lambda>p. p \<noteq> []) (split 32 (cleanText t)) = split 32 (cleanText t)"
    by (intro filter_True) auto
  then show ?thesis by (simp add: tokensOf_cleanText join_split)
qed

lemma tokensOf_nonempty: "p \<in> set (tokensOf (cleanText t)) \<Longrightarrow> p \<noteq> []"
  by (simp add: tokensOf_cleanText)

lemma jsOr_at: "[] \<notin> set parts \<Longrightarrow> jsOr (at parts i) None = at parts i"
proof -
  assume n: "[] \<notin> set parts"
  have "i < length parts \<Longrightarrow> parts ! i \<noteq> []"
    using n nth_mem [of i parts] by metis
  then show ?thesis by (auto simp add: jsOr_def at_def truthy_def)
qed

subsection \<open>The raw pair extractor\<close>

lemma rawInv_empty: "rawInv Map.empty"
  by (simp add: rawInv_def)

lemma getTruthy_rawInv:
  "rawInv raw \<Longrightarrow> getTruthy raw k = (raw k \<noteq> None \<or> k \<in> set objectPrototypeKeys)"
  by (cases "raw k") (auto simp add: getTruthy_def rawInv_def)

lemma rawInv_update:
  "rawInv raw \<Longrightarrow> v \<noteq> [] \<Longrightarrow> k \<notin> set objectPrototypeKeys \<Longrightarrow> rawInv (raw(k \<mapsto> v))"
  by (auto simp add: rawInv_def)

lemma pairLoop_rawInv: "rawInv raw \<Longrightarrow> rawInv (pairLoop arr raw)"
proof (induction arr raw rule: pairLoop.induct)
  case (1 k v arr raw)
  have "rawInv (if k = [] \<or> v = [] then raw else if \<not> getTruthy raw k then raw(k \<mapsto> v) else raw)"
    using "1.prems" by (auto simp add: getTruthy_rawInv intro: rawInv_update)
  from "1.IH" [OF this] show ?case by simp
qed simp_all

lemma pairLoop_lookup:
  "rawInv raw \<Longrightarrow> key \<notin> set objectPrototypeKeys \<Longrightarrow>
     pairLoop arr raw key =
       (case raw key of Some v \<Rightarrow> Some v
        | None \<Rightarrow> map_of (filter (\<lambda>(k, v). k \<noteq> [] \<and> v \<noteq> []) (pairUp arr)) key)"
proof (induction arr raw rule: pairLoop.induct)
  case (1 k v arr raw)
  define raw' where
    "raw' = (if k = [] \<or> v = [] then raw else if \<not> getTruthy raw k then raw(k \<mapsto> v) else raw)"
  have inv: "rawInv raw'"
    using "1.prems"(1) unfolding raw'_def
    by (auto simp add: getTruthy_rawInv intro: rawInv_update)
  have "pairLoop (k # v # arr) raw key = pairLoop arr raw' key"
    by (simp add: raw'_def)
  also have "\<dots> = (case raw' key of Some v \<Rightarrow> Some v
        | None \<Rightarrow> map_of (filter (\<lambda>(k, v). k \<noteq> [] \<and> v \<noteq> []) (pairUp arr)) key)"
    unfolding raw'_def using inv "1.prems"(2) unfolding raw'_def by (rule "1.IH")
  also have "\<dots> = (case raw key of Some v \<Rightarrow> Some v
        | None \<Rightarrow> map_of (filter (\<lambda>(k, v). k \<noteq> [] \<and> v \<noteq> []) (pairUp (k # v # arr))) key)"
    using "1.prems" by (auto simp add: raw'_def getTruthy_rawInv split: option.splits)
  finally show ?case .
qed (simp_all split: option.splits)

lemma rowStep_rawInv: "rawInv raw \<Longrightarrow> rawInv (rowStep lc raw cells)"
  by (simp add: rowStep_def pairLoop_rawInv)

lemma foldl_rowStep_rawInv: "rawInv raw \<Longrightarrow> rawInv (foldl (rowStep lc) raw rows)"
  by (induction rows arbitrary: raw) (simp_all add: rowStep_rawInv)

lemma rowStep_lookup:
  "rawInv raw \<Longrightarrow> key \<notin> set objectPrototypeKeys \<Longrightarrow>
     rowStep lc raw cells key =
       (case raw key of Some v \<Rightarrow> Some v
        | None \<Rightarrow> map_of (filter (\<lambda>(k, v). k \<noteq> [] \<and> v \<noteq> [])
                   (if length cells < 2 then [] else pairUp (map (cellTextNoLinks lc) cells))) key)"
  by (simp add: rowStep_def pairLoop_lookup split: option.splits)

lemma foldl_rowStep_lookup:
  "rawInv raw \<Longrightarrow> key \<notin> set objectPrototypeKeys \<Longrightarrow>
     foldl (rowStep lc) raw rows key =
       (case raw key of Some v \<Rightarrow> Some v
        | None \<Rightarrow> map_of (filter (\<lambda>(k, v). k \<noteq> [] \<and> v \<noteq> [])
                   (concat (map (\<lambda>cells. if length cells < 2 then []
                                          else pairUp (map (cellTextNoLinks lc) cells)) rows))) key)"
proof (induction rows arbitrary: raw)
  case Nil
  show ?case by (simp split: option.splits)
next
  case (Cons cells rows)
  have "foldl (rowStep lc) raw (cells # rows) key = foldl (rowStep lc) (rowStep lc raw cells) rows key"
    by simp
  also have "\<dots> = (case rowStep lc raw cells key of Some v \<Rightarrow> Some v
        | None \<Rightarrow> map_of (filter (\<lambda>(k, v). k \<noteq> [] \<and> v \<noteq> [])
                   (concat (map (\<lambda>cells. if length cells < 2 then []
                                          else pairUp (map (cellTextNoLinks lc) cells)) rows))) key)"
    using rowStep_rawInv [OF Cons.prems(1)] Cons.prems(2) by (rule Cons.IH)
  also have "\<dots> = (case raw key of Some v \<Rightarrow> Some v
        | None \<Rightarrow> map_of (filter (\<lambda>(k, v). k \<noteq> [] \<and> v \<noteq> [])
                   (concat (map (\<lambda>cells. if length cells < 2 then []
                                          else pairUp (map (cellTextNoLinks lc) cells)) (cells # rows)))) key)"
    by (simp add: rowStep_lookup [OF Cons.prems] map_add_def split: option.splits)
  finally show ?case .
qed

lemma extractReceiptRawPairs_prototype_key:
  "k \<in> set objectPrototypeKeys \<Longrightarrow> extractReceiptRawPairs lc doc k = None"
  using foldl_rowStep_rawInv [OF rawInv_empty, of lc "tableRows doc"]
  by (simp add: extractReceiptRawPairs_def rawInv_def)

subsection \<open>Evaluating the text functions\<close>

lemma normalizeKey_eq: "normalizeKey lc s = trim (collapseSpaces (lc (cleanText s)))"
  by (simp add: normalizeKey_def replaceAll_def replaceAll_spaces_from)

lemmas eval_text =
  cleanText_eq normalizeKey_eq stringOrEmpty_Some stringOrEmpty_None js_Cons js_Nil
  nbspToSpace_def isSpace_def stripTrailingColons_def isColon_def trim_def asciiLower_def

lemma cellText_samples:
  "cellTextNoLinks (map asciiLower) (js ''Payer Name'') = js ''Payer Name''"
  "cellTextNoLinks (map asciiLower) (js ''Abebe Kebede'') = js ''Abebe Kebede''"
  "cellTextNoLinks (map asciiLower) (js ''Duplicate Value'') = js ''Duplicate Value''"
  "cellTextNoLinks (map asciiLower) (js ''Receipt'') = js ''Receipt''"
  "cellTextNoLinks (map asciiLower) (js ''Download PDF'') = []"
  by (simp_all add: cellTextNoLinks_def isPdfJunkValue_def eval_text sublist_code)

lemma cleanText_samples:
  "cleanText (Some (js ''Receipt'')) = js ''Receipt''"
  "cleanText (Some (js ''Download PDF'')) = js ''Download PDF''"
  by (simp_all add: eval_text)

lemma cellText_more:
  "cellTextNoLinks (map asciiLower) (js ''constructor'') = js ''constructor''"
  "cellTextNoLinks (map asciiLower) (js ''x'') = js ''x''"
  by (simp_all add: cellTextNoLinks_def isPdfJunkValue_def eval_text sublist_code)

lemma cleanText_more:
  "cleanText (Some (js ''constructor'')) = js ''constructor''"
  "cleanText (Some (js ''x'')) = js ''x''"
  by (simp_all add: eval_text)

lemma payer_not_prototype: "js ''Payer Name'' \<notin> set objectPrototypeKeys"
  by (simp add: objectPrototypeKeys_def js_Cons js_Nil)

subsection \<open>The not-found phrases\<close>

lemma mem_RSeq:
  "m \<in> set (rmatch ic a st) \<Longrightarrow> st' \<in> set (rmatch ic b m) \<Longrightarrow> st' \<in> set (rmatch ic (RSeq a b) st)"
  by auto

lemma mem_RChars:
  "list_all2 (chEq ic) ps a \<Longrightarrow> (lastOr prev a, r, cap) \<in> set (rmatch ic (RChars ps) (prev, a @ r, cap))"
  by (simp add: matchChars_append)

lemma mem_RClass:
  "(\<forall>c \<in> set w. inClass ic items c) \<Longrightarrow> mn \<le> length w \<Longrightarrow>
   (\<forall>m. mx = Some m \<longrightarrow> length w \<le> m) \<Longrightarrow>
     (lastOr prev w, r, cap) \<in> set (rmatch ic (RClass items mn mx) (prev, w @ r, cap))"
  using matchClass_setI [of w "inClass ic items" mn mx prev r] by force

lemma asciiLower_eq_32: "(asciiLower c = 32) = (c = 32)"
  by (auto simp add: asciiLower_def)

lemma mem_space_word:
  assumes "map asciiLower w = 32 # map asciiLower b"
  shows "\<exists>p'. (p', v, cap) \<in> set (rmatch True (RSeq (RClass [CSpace] 1 None) (RChars b)) (prev, w @ v, cap))"
proof -
  from assms obtain wb where w: "w = 32 # wb" and wb: "map asciiLower wb = map asciiLower b"
    by (cases w) (auto simp add: asciiLower_eq_32)
  have "(lastOr prev [32], wb @ v, cap)
      \<in> set (rmatch True (RClass [CSpace] 1 None) (prev, [32] @ wb @ v, cap))"
    by (rule mem_RClass) (simp_all add: inClass_space isSpace_32)
  moreover have "(lastOr (lastOr prev [32]) wb, v, cap)
      \<in> set (rmatch True (RChars b) (lastOr prev [32], wb @ v, cap))"
    by (rule mem_RChars) (simp add: list_all2_chEq_ignoreCase wb)
  ultimately have "(lastOr (lastOr prev [32]) wb, v, cap)
      \<in> set (rmatch True (RSeq (RClass [CSpace] 1 None) (RChars b)) (prev, [32] @ wb @ v, cap))"
    by (rule mem_RSeq)
  then show ?thesis unfolding w by (auto simp del: rmatch.simps)
qed

lemma mem_words2:
  assumes "map asciiLower w = map asciiLower a @ 32 # map asciiLower b"
  shows "\<exists>p'. (p', v, cap) \<in> set (rmatch True (RSeq (RChars a) (RSeq (RClass [CSpace] 1 None) (RChars b)))
           (prev, w @ v, cap))"
proof -
  from assms obtain wa w' where w: "w = wa @ w'" and wa: "map asciiLower wa = map asciiLower a"
    and w': "map asciiLower w' = 32 # map asciiLower b"
    by (auto simp add: map_eq_append_conv)
  have "(lastOr prev wa, w' @ v, cap) \<in> set (rmatch True (RChars a) (prev, wa @ w' @ v, cap))"
    by (rule mem_RChars) (simp add: list_all2_chEq_ignoreCase wa)
  moreover from mem_space_word [OF w'] obtain p' where
    "(p', v, cap) \<in> set (rmatch True (RSeq (RClass [CSpace] 1 None) (RChars b)) (lastOr prev wa, w' @ v, cap))"
    by blast
  ultimately have "(p', v, cap) \<in> set (rmatch True (RSeq (RChars a) (RSeq (RClass [CSpace] 1 None) (RChars b)))
           (prev, wa @ w' @ v, cap))"
    by (rule mem_RSeq)
  then show ?thesis unfolding w by (auto simp del: rmatch.simps)
qed

lemma mem_words3:
  assumes "map asciiLower w = map asciiLower a @ 32 # map asciiLower b @ 32 # map asciiLower c"
  shows "\<exists>p'. (p', v, cap) \<in> set (rmatch True
           (RSeq (RChars a) (RSeq (RClass [CSpace] 1 None)
             (RSeq (RChars b) (RSeq (RClass [CSpace] 1 None) (RChars c)))))
           (prev, w @ v, cap))"
proof -
  from assms obtain wa w1 where w: "w = wa @ w1" and wa: "map asciiLower wa = map asciiLower a"
    and w1: "map asciiLower w1 = 32 # map asciiLower b @ 32 # map asciiLower c"
    by (auto simp add: map_eq_append_conv)
  from w1 obtain w2 where w12: "w1 = 32 # w2"
    and w2: "map asciiLower w2 = map asciiLower b @ 32 # map asciiLower c"
    by (cases w1) (auto simp add: asciiLower_eq_32)
  have 1: "(lastOr prev wa, w1 @ v, cap) \<in> set (rmatch True (RChars a) (prev, wa @ w1 @ v, cap))"
    by (rule mem_RChars) (simp add: list_all2_chEq_ignoreCase wa)
  have 2: "(lastOr (lastOr prev wa) [32], w2 @ v, cap)
      \<in> set (rmatch True (RClass [CSpace] 1 None) (lastOr prev wa, [32] @ w2 @ v, cap))"
    by (rule mem_RClass) (simp_all add: inClass_space isSpace_32)
  from mem_words2 [OF w2] obtain p' where 3:
    "(p', v, cap) \<in> set (rmatch True (RSeq (RChars b) (RSeq (RClass [CSpace] 1 None) (RChars c)))
       (lastOr (lastOr prev wa) [32], w2 @ v, cap))" by blast
  from 2 3 have "(p', v, cap) \<in> set (rmatch True
       (RSeq (RClass [CSpace] 1 None) (RSeq (RChars b) (RSeq (RClass [CSpace] 1 None) (RChars c))))
       (lastOr prev wa, [32] @ w2 @ v, cap))"
    by (rule mem_RSeq)
  with 1 have "(p', v, cap) \<in> set (rmatch True
       (RSeq (RChars a) (RSeq (RClass [CSpace] 1 None)
             (RSeq (RChars b) (RSeq (RClass [CSpace] 1 None) (RChars c)))))
       (prev, wa @ w1 @ v, cap))"
    unfolding w12 by (simp only: append_Cons append_Nil) (rule mem_RSeq)
  then show ?thesis unfolding w by (auto simp del: rmatch.simps)
qed

lemma containsIgnoringCaseD:
  "containsIgnoringCase p text \<Longrightarrow> \<exists>u w v. text = u @ w @ v \<and> map asciiLower w = map asciiLower p"
proof -
  assume "containsIgnoringCase p text"
  then obtain ps ss where "map asciiLower text = ps @ map asciiLower p @ ss"
    by (auto simp add: containsIgnoringCase_def sublist_def)
  then obtain u t where t: "text = u @ t" and "map asciiLower p @ ss = map asciiLower t"
    unfolding map_eq_append_conv by blast
  then obtain w v where "t = w @ v" "map asciiLower p = map asciiLower w"
    unfolding append_eq_map_conv by blast
  with t show ?thesis by (intro exI [of _ u] exI [of _ w] exI [of _ v]) simp
qed

lemma rmatch_RAlt: "rmatch ic (RAlt a b) st = rmatch ic a st @ rmatch ic b st"
  by simp

lemma in_set_not_Nil: "x \<in> set xs \<Longrightarrow> xs \<noteq> []"
  by auto

lemma rmatch_rxNotFound:
  assumes "p \<in> set notFoundPhrases" "map asciiLower w = map asciiLower p"
  shows "rmatch True rxNotFound (prev, w @ v, None) \<noteq> []"
proof -
  have l: "map asciiLower (js ''no data'') = map asciiLower (js ''no'') @ 32 # map asciiLower (js ''data'')"
    "map asciiLower (js ''not found'') = map asciiLower (js ''not'') @ 32 # map asciiLower (js ''found'')"
    "map asciiLower (js ''invalid invoice'')
       = map asciiLower (js ''invalid'') @ 32 # map asciiLower (js ''invoice'')"
    "map asciiLower (js ''does not exist'')
       = map asciiLower (js ''does'') @ 32 # map asciiLower (js ''not'') @ 32 # map asciiLower (js ''exist'')"
    by (simp_all add: js_Cons js_Nil asciiLower_def)
  from assms(1) consider "p = js ''no data''" | "p = js ''not found''" | "p = js ''invalid invoice''"
    | "p = js ''does not exist''" by (auto simp add: notFoundPhrases_def)
  then show ?thesis
  proof cases
    case 1
    with assms(2) l(1) have "map asciiLower w = map asciiLower (js ''no'') @ 32 # map asciiLower (js ''data'')"
      by simp
    from mem_words2 [OF this, of v None prev] in_set_not_Nil
    have "rmatch True (rseq [RChars (js ''no''), RClass [CSpace] 1 None, RChars (js ''data'')])
        (prev, w @ v, None) \<noteq> []"
      by (auto simp del: rmatch.simps)
    then show ?thesis by (simp add: rxNotFound_def del: rmatch.simps(1-3))
  next
    case 2
    with assms(2) l(2) have "map asciiLower w = map asciiLower (js ''not'') @ 32 # map asciiLower (js ''found'')"
      by simp
    from mem_words2 [OF this, of v None prev] in_set_not_Nil
    have "rmatch True (rseq [RChars (js ''not''), RClass [CSpace] 1 None, RChars (js ''found'')])
        (prev, w @ v, None) \<noteq> []"
      by (auto simp del: rmatch.simps)
    then show ?thesis by (simp add: rxNotFound_def del: rmatch.simps(1-3))
  next
    case 3
    with assms(2) l(3) have "map asciiLower w
        = map asciiLower (js ''invalid'') @ 32 # map asciiLower (js ''invoice'')"
      by simp
    from mem_words2 [OF this, of v None prev] in_set_not_Nil
    have "rmatch True (rseq [RChars (js ''invalid''), RClass [CSpace] 1 None, RChars (js ''invoice'')])
        (prev, w @ v, None) \<noteq> []"
      by (auto simp del: rmatch.simps)
    then show ?thesis by (simp add: rxNotFound_def del: rmatch.simps(1-3))
  next
    case 4
    with assms(2) l(4) have "map asciiLower w
        = map asciiLower (js ''does'') @ 32 # map asciiLower (js ''not'') @ 32 # map asciiLower (js ''exist'')"
      by simp
    from mem_words3 [OF this, of v None prev] in_set_not_Nil
    have "rmatch True (rseq [RChars (js ''does''), RClass [CSpace] 1 None, RChars (js ''not''),
                 RClass [CSpace] 1 None, RChars (js ''exist'')])
        (prev, w @ v, None) \<noteq> []"
      by (auto simp del: rmatch.simps)
    then show ?thesis by (simp add: rxNotFound_def del: rmatch.simps(1-3))
  qed
qed

lemma regexTest_rxNotFound: "hasNotFoundPhrase text \<Longrightarrow> regexTest True rxNotFound text"
proof -
  assume "hasNotFoundPhrase text"
  then obtain p where p: "p \<in> set notFoundPhrases" and c: "containsIgnoringCase p text"
    by (auto simp add: hasNotFoundPhrase_def list_ex_iff)
  from containsIgnoringCaseD [OF c] obtain u w v where
    t: "text = u @ w @ v" and w: "map asciiLower w = map asciiLower p" by blast
  from rmatch_rxNotFound [OF p w] have "rmatch True rxNotFound (lastOr None u, w @ v, None) \<noteq> []" .
  from execFrom_found [OF this] show ?thesis by (simp add: regexTest_def t)
qed

subsection \<open>The stand-in platform\<close>

lemma length_js: "length (js s) = length s"
  by (simp add: js_def)

lemma sample_receiptUrl:
  "buildReceiptUrlFromTx (samplePlatform d) (js ''ABCDE12345'')
     = js ''https://transactioninfo.ethiotelecom.et/receipt/ABCDE12345''"
  by (simp add: buildReceiptUrlFromTx_def RECEIPT_URL_TEMPLATE_def samplePlatform_def
        stringOrEmpty_def jsOr_def truthy_def js_Cons js_Nil)

lemmas eval_url =
  plainURL_def schemeText_def afterScheme_def hostText_def pathText_def isPlainHost_def
  isPlainPath_def isAsciiLetter_def isAsciiAlnum_def asciiLower_def js_Cons js_Nil

lemma sample_newURL: "newURL (samplePlatform d) = plainURL"
  by (simp add: samplePlatform_def)

lemma sample_parse:
  "plainURL (js ''https://transactioninfo.ethiotelecom.et/receipt/ABCDE12345'')
     = Some (samplePathUrl (js ''/receipt/ABCDE12345'') [])"
  by (simp add: eval_url samplePathUrl_def)

lemma sample_gate:
  "assertAllowedHost (newURL (samplePlatform d)
       (js ''https://transactioninfo.ethiotelecom.et/receipt/ABCDE12345'')) = Inr ()"
  unfolding sample_newURL sample_parse
  by (simp add: samplePathUrl_def assertAllowedHost_def ALLOWED_HOSTS_def js_Cons js_Nil)

lemma sample_fetch:
  "fetchReceiptWithPuppeteer (samplePlatform d)
       (js ''https://transactioninfo.ethiotelecom.et/receipt/ABCDE12345'') = Inr longPage"
  by (simp add: samplePlatform_def longPage_def)

lemma sample_load: "cheerioLoad (samplePlatform d) h = d"
  by (simp add: samplePlatform_def)

lemma sample_lower: "toLowerCase (samplePlatform d) = map asciiLower"
  by (simp add: samplePlatform_def)

lemma sample_code: "regexTest False rxTransactionCode (js ''ABCDE12345'')"
  by (simp add: regexTest_transaction_code js_Cons js_Nil isAsciiAlnum_def)

subsection \<open>The settled amount pattern\<close>

lemma mem_RSeqE:
  "st' \<in> set (rmatch ic (RSeq a b) st) \<Longrightarrow> \<exists>m. m \<in> set (rmatch ic a st) \<and> st' \<in> set (rmatch ic b m)"
  by auto

lemma mem_RCharsE:
  "(p', r', c') \<in> set (rmatch ic (RChars ps) (prev, inp, cap)) \<Longrightarrow>
     \<exists>a. inp = a @ r' \<and> list_all2 (chEq ic) ps a \<and> p' = lastOr prev a \<and> c' = cap"
proof -
  assume "(p', r', c') \<in> set (rmatch ic (RChars ps) (prev, inp, cap))"
  then have "matchChars ic ps prev inp = Some (p', r')" and "c' = cap"
    by (auto split: option.splits)
  with matchChars_SomeD [of ic ps prev inp p' r'] show ?thesis by auto
qed

lemma mem_RClassE:
  "(p', r', c') \<in> set (rmatch ic (RClass items mn mx) (prev, inp, cap)) \<Longrightarrow>
     \<exists>w. inp = w @ r' \<and> (\<forall>c \<in> set w. inClass ic items c) \<and> mn \<le> length w
         \<and> (\<forall>m. mx = Some m \<longrightarrow> length w \<le> m) \<and> p' = lastOr prev w \<and> c' = cap"
proof -
  assume "(p', r', c') \<in> set (rmatch ic (RClass items mn mx) (prev, inp, cap))"
  then have "(p', r') \<in> set (matchClass (inClass ic items) mn mx prev inp)" and "c' = cap"
    by auto
  with matchClass_setD [of p' r' "inClass ic items" mn mx prev inp] show ?thesis by auto
qed

lemma mem_RGroupE:
  "(p', r', c') \<in> set (rmatch ic (RGroup a) (prev, inp, cap)) \<Longrightarrow>
     \<exists>c0. (p', r', c0) \<in> set (rmatch ic a (prev, inp, cap))
        \<and> c' = Some (take (length inp - length r') inp)"
  by auto

lemma mem_ROptE:
  "st' \<in> set (rmatch ic (ROpt a) (prev, inp, cap)) \<Longrightarrow>
     st' = (prev, inp, cap) \<or> st' \<in> set (rmatch ic a (prev, inp, cap))"
  by auto

lemma mem_RWordBE:
  "st' \<in> set (rmatch ic RWordB (prev, inp, cap)) \<Longrightarrow>
     st' = (prev, inp, cap) \<and> atWordBoundary prev inp"
  by (auto split: if_splits)

lemma inClass_digit_comma: "inClass True [CRange 48 57, CChar 44] c = (isDigit c \<or> c = 44)"
  by (auto simp add: inClass_def isDigit_def asciiUpper_def asciiLower_def)

lemma inClass_digit: "inClass True [CRange 48 57] c = isDigit c"
  by (auto simp add: inClass_def isDigit_def asciiUpper_def asciiLower_def)

lemma asciiLower_eq_46: "(asciiLower c = 46) = (c = 46)"
  by (auto simp add: asciiLower_def)

lemma chars_point: "list_all2 (chEq True) (js ''.'') d = (d = [46])"
  by (cases d) (auto simp add: js_Cons js_Nil chEq_ignoreCase asciiLower_eq_46 asciiLower_def)

lemma lower_settled: "map asciiLower (js ''Settled Amount'') = js ''settled amount''"
  by (simp add: js_Cons js_Nil asciiLower_def)

lemma lower_birr: "map asciiLower (js ''Birr'') = js ''birr''"
  by (simp add: js_Cons js_Nil asciiLower_def)

lemma birr_shape:
  assumes "map asciiLower b = js ''birr''"
  shows "b \<noteq> []" "asciiLower (hd b) = 98" "isWordChar (last b)"
proof -
  from assms obtain c1 c2 c3 c4 where b: "b = [c1, c2, c3, c4]"
    and l: "asciiLower c1 = 98" "asciiLower c4 = 114"
    by (auto simp add: js_Cons js_Nil map_eq_Cons_conv)
  show "b \<noteq> []" "asciiLower (hd b) = 98" using b l by simp_all
  have "isWordChar (asciiLower c4)" using l by (simp add: isWordChar_def)
  then show "isWordChar (last b)" using b by (simp add: asciiLower_isWordChar)
qed

lemma settled_shape:
  assumes "map asciiLower a = js ''settled amount''"
  shows "a \<noteq> []" "isWordChar (hd a)"
proof -
  from assms obtain c cs where a: "a = c # cs" and l: "asciiLower c = 115"
    by (auto simp add: js_Cons js_Nil map_eq_Cons_conv)
  show "a \<noteq> []" using a by simp
  have "isWordChar (asciiLower c)" using l by (simp add: isWordChar_def)
  then show "isWordChar (hd a)" using a by (simp add: asciiLower_isWordChar)
qed

text \<open>What follows the amount: white space or the \<open>B\<close> of \<open>Birr\<close>.\<close>

lemma after_amount:
  assumes "list_all isSpace s2" "map asciiLower b = js ''birr''"
  shows "s2 @ b @ post \<noteq> []"
    "isSpace (hd (s2 @ b @ post)) \<or> asciiLower (hd (s2 @ b @ post)) = 98"
proof -
  note bs = birr_shape [OF assms(2)]
  show "s2 @ b @ post \<noteq> []" using bs(1) by simp
  show "isSpace (hd (s2 @ b @ post)) \<or> asciiLower (hd (s2 @ b @ post)) = 98"
  proof (cases s2)
    case Nil
    then show ?thesis using bs by simp
  next
    case (Cons c cs)
    then show ?thesis using assms(1) by simp
  qed
qed

lemma after_amount_not:
  assumes "isSpace c \<or> asciiLower c = 98"
  shows "\<not> isDigit c" "c \<noteq> 44" "c \<noteq> 46"
  using assms by (auto simp add: isSpace_def isDigit_def asciiLower_def split: if_splits)

lemma digit_comma_not_space: "isDigit c \<or> c = 44 \<Longrightarrow> \<not> isSpace c"
  by (auto simp add: isDigit_def isSpace_def)

lemma rxSettledAmount_unfold:
  "rxSettledAmount =
     RSeq RWordB (RSeq (RChars (js ''Settled Amount'')) (RSeq (RClass [CSpace] 0 None)
       (RSeq (RGroup (RSeq (RClass [CRange 48 57, CChar 44] 1 None)
                (ROpt (RSeq (RChars (js ''.'')) (RClass [CRange 48 57] 1 (Some 2))))))
         (RSeq (RClass [CSpace] 0 None) (RSeq (RChars (js ''Birr'')) RWordB)))))"
  by (simp add: rxSettledAmount_def)

lemma fraction_first:
  assumes "isFraction frac" "r \<noteq> []" "\<not> isDigit (hd r)" "hd r \<noteq> 46"
  shows "\<exists>p'. firstIs True (ROpt (RSeq (RChars (js ''.'')) (RClass [CRange 48 57] 1 (Some 2))))
           (prev, frac @ r, cap) (p', r, cap)"
proof (cases "frac = []")
  case True
  from assms(2) obtain c cs where r: "r = c # cs" by (cases r) auto
  with assms(4) have "c \<noteq> 46" by simp
  then have "matchChars True (js ''.'') prev r = None"
    by (simp add: r js_Cons js_Nil chEq_ignoreCase asciiLower_eq_46 asciiLower_def)
  then have "rmatch True (RSeq (RChars (js ''.'')) (RClass [CRange 48 57] 1 (Some 2))) (prev, r, cap) = []"
    by simp
  from firstIs_ROpt_skip [OF this] True show ?thesis by auto
next
  case False
  with assms(1) obtain fd where f: "frac = 46 # fd" and fd: "fd \<noteq> []" "length fd \<le> 2"
    "list_all isDigit fd"
    by (cases frac) (auto simp add: isFraction_def)
  have 1: "firstIs True (RChars (js ''.'')) (prev, [46] @ fd @ r, cap) (lastOr prev [46], fd @ r, cap)"
    by (rule firstIs_RChars) (simp add: chars_point)
  have 2: "firstIs True (RClass [CRange 48 57] 1 (Some 2)) (lastOr prev [46], fd @ r, cap)
      (lastOr (lastOr prev [46]) fd, r, cap)"
  proof (rule firstIs_RClass)
    show "\<forall>c \<in> set fd. inClass True [CRange 48 57] c"
      using fd(3) by (simp add: inClass_digit list_all_iff)
    show "1 \<le> length fd" using fd(1) by (cases fd) auto
    show "\<forall>m. Some 2 = Some m \<longrightarrow> length fd \<le> m" using fd(2) by simp
    show "r = [] \<or> \<not> inClass True [CRange 48 57] (hd r) \<or> Some 2 = Some (length fd)"
      using assms(3) by (simp add: inClass_digit)
  qed
  from firstIs_RSeq [OF 1 2]
  have "firstIs True (RSeq (RChars (js ''.'')) (RClass [CRange 48 57] 1 (Some 2)))
      (prev, frac @ r, cap) (lastOr (lastOr prev [46]) fd, r, cap)"
    by (simp add: f)
  from firstIs_ROpt_take [OF this] f show ?thesis by auto
qed

lemma amount_first:
  assumes "isAmountText num" "r \<noteq> []" "\<not> isDigit (hd r)" "hd r \<noteq> 44" "hd r \<noteq> 46"
  shows "\<exists>p'. firstIs True
           (RGroup (RSeq (RClass [CRange 48 57, CChar 44] 1 None)
              (ROpt (RSeq (RChars (js ''.'')) (RClass [CRange 48 57] 1 (Some 2))))))
           (prev, num @ r, cap) (p', r, Some num)"
proof -
  from assms(1) obtain ds frac where n: "num = ds @ frac" and ds: "ds \<noteq> []"
    "list_all (\<lambda>c. isDigit c \<or> c = 44) ds" and fr: "isFraction frac"
    by (auto simp add: isAmountText_def)
  have nx: "\<not> (isDigit (hd (frac @ r)) \<or> hd (frac @ r) = 44)"
  proof (cases "frac = []")
    case True
    then show ?thesis using assms(3,4) by simp
  next
    case False
    with fr have "hd frac = 46" by (simp add: isFraction_def)
    with False show ?thesis by (simp add: isDigit_def)
  qed
  have 1: "firstIs True (RClass [CRange 48 57, CChar 44] 1 None) (prev, ds @ frac @ r, cap)
      (lastOr prev ds, frac @ r, cap)"
  proof (rule firstIs_RClass)
    show "\<forall>c \<in> set ds. inClass True [CRange 48 57, CChar 44] c"
      using ds(2) by (simp add: inClass_digit_comma list_all_iff)
    show "1 \<le> length ds" using ds(1) by (cases ds) auto
    show "\<forall>m. None = Some m \<longrightarrow> length ds \<le> m" by simp
    show "frac @ r = [] \<or> \<not> inClass True [CRange 48 57, CChar 44] (hd (frac @ r))
        \<or> None = Some (length ds)"
      using nx by (simp add: inClass_digit_comma)
  qed
  from fraction_first [OF fr assms(2,3,5)] obtain p' where 2:
    "firstIs True (ROpt (RSeq (RChars (js ''.'')) (RClass [CRange 48 57] 1 (Some 2))))
       (lastOr prev ds, frac @ r, cap) (p', r, cap)" by blast
  from firstIs_RGroup [OF firstIs_RSeq [OF 1 2]] show ?thesis
    by (auto simp add: n)
qed

lemma rxSettledAmount_first:
  assumes "map asciiLower a = js ''settled amount''" "list_all isSpace s1" "isAmountText num"
    "list_all isSpace s2" "map asciiLower b = js ''birr''"
    "prev = None \<or> \<not> isWordChar (the prev)" "post = [] \<or> \<not> isWordChar (hd post)"
  shows "\<exists>p'. firstIs True rxSettledAmount (prev, a @ s1 @ num @ s2 @ b @ post, None)
           (p', post, Some num)"
proof -
  note bs = birr_shape [OF assms(5)]
  note ss = settled_shape [OF assms(1)]
  note aa = after_amount [OF assms(4,5), of post]
  note an = after_amount_not [OF aa(2)]
  from assms(3) obtain ds frac where n: "num = ds @ frac" and ds: "ds \<noteq> []"
    "list_all (\<lambda>c. isDigit c \<or> c = 44) ds"
    by (auto simp add: isAmountText_def)
  from ds have hn: "num \<noteq> []" "\<not> isSpace (hd num)"
    by (cases ds; simp add: n digit_comma_not_space)+
  have 1: "firstIs True RWordB (prev, a @ s1 @ num @ s2 @ b @ post, None)
      (prev, a @ s1 @ num @ s2 @ b @ post, None)"
  proof (rule firstIs_RWordB)
    show "atWordBoundary prev (a @ s1 @ num @ s2 @ b @ post)"
      using assms(6) ss by (cases a; cases prev) (auto simp add: atWordBoundary_def)
  qed
  have 2: "firstIs True (RChars (js ''Settled Amount'')) (prev, a @ s1 @ num @ s2 @ b @ post, None)
      (lastOr prev a, s1 @ num @ s2 @ b @ post, None)"
    by (rule firstIs_RChars) (simp add: list_all2_chEq_ignoreCase lower_settled assms(1))
  have 3: "firstIs True (RClass [CSpace] 0 None) (lastOr prev a, s1 @ num @ s2 @ b @ post, None)
      (lastOr (lastOr prev a) s1, num @ s2 @ b @ post, None)"
  proof (rule firstIs_RClass)
    show "\<forall>c \<in> set s1. inClass True [CSpace] c"
      using assms(2) by (simp add: inClass_space list_all_iff)
    show "num @ s2 @ b @ post = [] \<or> \<not> inClass True [CSpace] (hd (num @ s2 @ b @ post))
        \<or> None = Some (length s1)"
      using hn by (simp add: inClass_space)
  qed simp_all
  from amount_first [OF assms(3) aa(1) an, of "lastOr (lastOr prev a) s1" None]
  obtain p4 where 4: "firstIs True
       (RGroup (RSeq (RClass [CRange 48 57, CChar 44] 1 None)
          (ROpt (RSeq (RChars (js ''.'')) (RClass [CRange 48 57] 1 (Some 2))))))
       (lastOr (lastOr prev a) s1, num @ s2 @ b @ post, None) (p4, s2 @ b @ post, Some num)"
    by blast
  have 5: "firstIs True (RClass [CSpace] 0 None) (p4, s2 @ b @ post, Some num)
      (lastOr p4 s2, b @ post, Some num)"
  proof (rule firstIs_RClass)
    show "\<forall>c \<in> set s2. inClass True [CSpace] c"
      using assms(4) by (simp add: inClass_space list_all_iff)
    have "\<not> isSpace (hd b)" using bs(2)
      by (auto simp add: isSpace_def asciiLower_def split: if_splits)
    then show "b @ post = [] \<or> \<not> inClass True [CSpace] (hd (b @ post)) \<or> None = Some (length s2)"
      using bs(1) by (simp add: inClass_space)
  qed simp_all
  have 6: "firstIs True (RChars (js ''Birr'')) (lastOr p4 s2, b @ post, Some num)
      (lastOr (lastOr p4 s2) b, post, Some num)"
    by (rule firstIs_RChars) (simp add: list_all2_chEq_ignoreCase lower_birr assms(5))
  have 7: "firstIs True RWordB (lastOr (lastOr p4 s2) b, post, Some num)
      (lastOr (lastOr p4 s2) b, post, Some num)"
  proof (rule firstIs_RWordB)
    show "atWordBoundary (lastOr (lastOr p4 s2) b) post"
      using assms(7) bs(1,3) by (cases post) (auto simp add: atWordBoundary_def lastOr_def)
  qed
  from firstIs_RSeq [OF 1 firstIs_RSeq [OF 2 firstIs_RSeq [OF 3 firstIs_RSeq [OF 4
         firstIs_RSeq [OF 5 firstIs_RSeq [OF 6 7]]]]]]
  show ?thesis unfolding rxSettledAmount_unfold by blast
qed

lemma fraction_sound:
  assumes "(p', r', c') \<in> set (rmatch True
      (ROpt (RSeq (RChars (js ''.'')) (RClass [CRange 48 57] 1 (Some 2)))) (prev, inp, cap))"
  shows "\<exists>frac. inp = frac @ r' \<and> isFraction frac"
proof -
  from mem_ROptE [OF assms] consider "(p', r', c') = (prev, inp, cap)"
    | "(p', r', c') \<in> set (rmatch True (RSeq (RChars (js ''.'')) (RClass [CRange 48 57] 1 (Some 2)))
         (prev, inp, cap))" by blast
  then show ?thesis
  proof cases
    case 1
    then show ?thesis by (intro exI [of _ "[]"]) (simp add: isFraction_def)
  next
    case 2
    from mem_RSeqE [OF 2] obtain m where
      m: "m \<in> set (rmatch True (RChars (js ''.'')) (prev, inp, cap))"
      and f: "(p', r', c') \<in> set (rmatch True (RClass [CRange 48 57] 1 (Some 2)) m)" by blast
    obtain p1 r1 c1 where m1: "m = (p1, r1, c1)" by (cases m) auto
    from mem_RCharsE [OF m [unfolded m1]] have i: "inp = [46] @ r1"
      by (auto simp add: chars_point)
    from mem_RClassE [OF f [unfolded m1]] obtain fd where fd: "r1 = fd @ r'"
      "\<forall>c \<in> set fd. isDigit c" "1 \<le> length fd" "length fd \<le> 2"
      by (auto simp add: inClass_digit)
    from fd(3) have "fd \<noteq> []" by auto
    with fd(2,4) have "isFraction (46 # fd)" by (simp add: isFraction_def list_all_iff)
    with i fd(1) show ?thesis by (intro exI [of _ "46 # fd"]) simp
  qed
qed

lemma amount_sound:
  assumes "(p', r', c') \<in> set (rmatch True
      (RGroup (RSeq (RClass [CRange 48 57, CChar 44] 1 None)
         (ROpt (RSeq (RChars (js ''.'')) (RClass [CRange 48 57] 1 (Some 2))))))
      (prev, inp, cap))"
  shows "\<exists>num. inp = num @ r' \<and> isAmountText num \<and> c' = Some num"
proof -
  from mem_RGroupE [OF assms] obtain c0 where
    g: "(p', r', c0) \<in> set (rmatch True (RSeq (RClass [CRange 48 57, CChar 44] 1 None)
         (ROpt (RSeq (RChars (js ''.'')) (RClass [CRange 48 57] 1 (Some 2))))) (prev, inp, cap))"
    and c: "c' = Some (take (length inp - length r') inp)" by blast
  from mem_RSeqE [OF g] obtain m where
    m: "m \<in> set (rmatch True (RClass [CRange 48 57, CChar 44] 1 None) (prev, inp, cap))"
    and o: "(p', r', c0) \<in> set (rmatch True
         (ROpt (RSeq (RChars (js ''.'')) (RClass [CRange 48 57] 1 (Some 2)))) m)" by blast
  obtain p1 r1 c1 where m1: "m = (p1, r1, c1)" by (cases m) auto
  from mem_RClassE [OF m [unfolded m1]] obtain ds where ds: "inp = ds @ r1"
    "\<forall>c \<in> set ds. isDigit c \<or> c = 44" "1 \<le> length ds"
    by (auto simp add: inClass_digit_comma)
  from fraction_sound [OF o [unfolded m1]] obtain frac where fr: "r1 = frac @ r'" "isFraction frac"
    by blast
  from ds(3) have "ds \<noteq> []" by auto
  with ds(2) fr(2) have "isAmountText (ds @ frac)"
    by (auto simp add: isAmountText_def list_all_iff)
  moreover have "inp = (ds @ frac) @ r'" using ds(1) fr(1) by simp
  moreover from this have "take (length inp - length r') inp = ds @ frac" by simp
  ultimately show ?thesis using c by blast
qed

lemma rxSettledAmount_sound:
  assumes "(p', post, c') \<in> set (rmatch True rxSettledAmount (prev, inp, None))"
  shows "\<exists>a s1 num s2 b. inp = a @ s1 @ num @ s2 @ b @ post
     \<and> map asciiLower a = js ''settled amount'' \<and> list_all isSpace s1 \<and> isAmountText num
     \<and> list_all isSpace s2 \<and> map asciiLower b = js ''birr''
     \<and> (prev = None \<or> \<not> isWordChar (the prev)) \<and> (post = [] \<or> \<not> isWordChar (hd post))
     \<and> c' = Some num"
proof -
  note h = assms [unfolded rxSettledAmount_unfold]
  from mem_RSeqE [OF h] obtain m1 where
    w1: "m1 \<in> set (rmatch True RWordB (prev, inp, None))"
    and h1: "(p', post, c') \<in> set (rmatch True (RSeq (RChars (js ''Settled Amount''))
       (RSeq (RClass [CSpace] 0 None)
       (RSeq (RGroup (RSeq (RClass [CRange 48 57, CChar 44] 1 None)
                (ROpt (RSeq (RChars (js ''.'')) (RClass [CRange 48 57] 1 (Some 2))))))
         (RSeq (RClass [CSpace] 0 None) (RSeq (RChars (js ''Birr'')) RWordB))))) m1)" by blast
  from mem_RWordBE [OF w1] have m1: "m1 = (prev, inp, None)" and b1: "atWordBoundary prev inp"
    by simp_all
  from mem_RSeqE [OF h1 [unfolded m1]] obtain m2 where
    w2: "m2 \<in> set (rmatch True (RChars (js ''Settled Amount'')) (prev, inp, None))"
    and h2: "(p', post, c') \<in> set (rmatch True (RSeq (RClass [CSpace] 0 None)
       (RSeq (RGroup (RSeq (RClass [CRange 48 57, CChar 44] 1 None)
                (ROpt (RSeq (RChars (js ''.'')) (RClass [CRange 48 57] 1 (Some 2))))))
         (RSeq (RClass [CSpace] 0 None) (RSeq (RChars (js ''Birr'')) RWordB)))) m2)" by blast
  obtain p2 r2 c2 where m2: "m2 = (p2, r2, c2)" by (cases m2) auto
  from mem_RCharsE [OF w2 [unfolded m2]] obtain a where a: "inp = a @ r2"
    "map asciiLower a = js ''settled amount''" "c2 = None"
    by (auto simp add: list_all2_chEq_ignoreCase lower_settled)
  from mem_RSeqE [OF h2 [unfolded m2]] obtain m3 where
    w3: "m3 \<in> set (rmatch True (RClass [CSpace] 0 None) (p2, r2, c2))"
    and h3: "(p', post, c') \<in> set (rmatch True
       (RSeq (RGroup (RSeq (RClass [CRange 48 57, CChar 44] 1 None)
                (ROpt (RSeq (RChars (js ''.'')) (RClass [CRange 48 57] 1 (Some 2))))))
         (RSeq (RClass [CSpace] 0 None) (RSeq (RChars (js ''Birr'')) RWordB))) m3)" by blast
  obtain p3 r3 c3 where m3: "m3 = (p3, r3, c3)" by (cases m3) auto
  from mem_RClassE [OF w3 [unfolded m3]] obtain s1 where s1: "r2 = s1 @ r3" "list_all isSpace s1"
    by (auto simp add: inClass_space list_all_iff)
  from mem_RSeqE [OF h3 [unfolded m3]] obtain m4 where
    w4: "m4 \<in> set (rmatch True (RGroup (RSeq (RClass [CRange 48 57, CChar 44] 1 None)
                (ROpt (RSeq (RChars (js ''.'')) (RClass [CRange 48 57] 1 (Some 2))))))
           (p3, r3, c3))"
    and h4: "(p', post, c') \<in> set (rmatch True
         (RSeq (RClass [CSpace] 0 None) (RSeq (RChars (js ''Birr'')) RWordB)) m4)" by blast
  obtain p4 r4 c4 where m4: "m4 = (p4, r4, c4)" by (cases m4) auto
  from amount_sound [OF w4 [unfolded m4]] obtain num where num: "r3 = num @ r4"
    "isAmountText num" "c4 = Some num" by blast
  from mem_RSeqE [OF h4 [unfolded m4]] obtain m5 where
    w5: "m5 \<in> set (rmatch True (RClass [CSpace] 0 None) (p4, r4, c4))"
    and h5: "(p', post, c') \<in> set (rmatch True (RSeq (RChars (js ''Birr'')) RWordB) m5)" by blast
  obtain p5 r5 c5 where m5: "m5 = (p5, r5, c5)" by (cases m5) auto
  from mem_RClassE [OF w5 [unfolded m5]] obtain s2 where s2: "r4 = s2 @ r5" "list_all isSpace s2"
    "c5 = c4"
    by (auto simp add: inClass_space list_all_iff)
  from mem_RSeqE [OF h5 [unfolded m5]] obtain m6 where
    w6: "m6 \<in> set (rmatch True (RChars (js ''Birr'')) (p5, r5, c5))"
    and h6: "(p', post, c') \<in> set (rmatch True RWordB m6)" by blast
  obtain p6 r6 c6 where m6: "m6 = (p6, r6, c6)" by (cases m6) auto
  from mem_RCharsE [OF w6 [unfolded m6]] obtain b where b: "r5 = b @ r6"
    "map asciiLower b = js ''birr''" "p6 = lastOr p5 b" "c6 = c5"
    by (auto simp add: list_all2_chEq_ignoreCase lower_birr)
  from mem_RWordBE [OF h6 [unfolded m6]] have e: "post = r6" "c' = c6"
    and b7: "atWordBoundary p6 r6" by simp_all
  note bs = birr_shape [OF b(2)]
  note ss = settled_shape [OF a(2)]
  have "prev = None \<or> \<not> isWordChar (the prev)"
    using b1 ss a(1) by (cases a; cases prev) (auto simp add: atWordBoundary_def)
  moreover have "post = [] \<or> \<not> isWordChar (hd post)"
    using b7 bs(1,3) b(3) e(1) by (cases post) (auto simp add: atWordBoundary_def lastOr_def)
  moreover have "inp = a @ s1 @ num @ s2 @ b @ post"
    using a(1) s1(1) num(1) s2(1) b(1) e(1) by simp
  moreover have "c' = Some num" using e(2) b(4) s2(3) num(3) by simp
  ultimately show ?thesis using a(2) s1(2) num(2) s2(2) b(2) by blast
qed

lemma settledAmountAt_first:
  assumes "settledAmountAt text pre num"
  shows "\<exists>inp p' post. text = pre @ inp
     \<and> firstIs True rxSettledAmount (lastOr None pre, inp, None) (p', post, Some num)"
proof -
  from assms obtain a s1 s2 b post where t: "text = pre @ a @ s1 @ num @ s2 @ b @ post"
    and c: "map asciiLower a = js ''settled amount''" "list_all isSpace s1" "isAmountText num"
      "list_all isSpace s2" "map asciiLower b = js ''birr''"
    and l: "pre = [] \<or> \<not> isWordChar (last pre)" and r: "post = [] \<or> \<not> isWordChar (hd post)"
    unfolding settledAmountAt_def by blast
  from l have "lastOr None pre = None \<or> \<not> isWordChar (the (lastOr None pre))"
    by (auto simp add: lastOr_def)
  from rxSettledAmount_first [OF c this r] t show ?thesis by blast
qed

lemma settledAmountAt_sound:
  assumes "rmatch True rxSettledAmount (lastOr None u, v, None) = (p', post, c') # ms"
  shows "\<exists>num. settledAmountAt (u @ v) u num \<and> c' = Some num"
proof -
  from assms have "(p', post, c') \<in> set (rmatch True rxSettledAmount (lastOr None u, v, None))"
    by simp
  from rxSettledAmount_sound [OF this] obtain a s1 num s2 b where
    d: "v = a @ s1 @ num @ s2 @ b @ post" "map asciiLower a = js ''settled amount''"
      "list_all isSpace s1" "isAmountText num" "list_all isSpace s2" "map asciiLower b = js ''birr''"
      "lastOr None u = None \<or> \<not> isWordChar (the (lastOr None u))"
      "post = [] \<or> \<not> isWordChar (hd post)" "c' = Some num" by blast
  from d(7) have "u = [] \<or> \<not> isWordChar (last u)" by (auto simp add: lastOr_def split: if_splits)
  with d have "settledAmountAt (u @ v) u num" unfolding settledAmountAt_def by blast
  with d(9) show ?thesis by blast
qed

lemma execFrom_settledAmount_first:
  assumes "settledAmountAt text pre num"
    and "\<forall>pre' num'. settledAmountAt text pre' num' \<longrightarrow> length pre \<le> length pre'"
  shows "\<exists>p' post. execFrom True rxSettledAmount None text = Some (pre, (p', post, Some num))"
proof -
  from settledAmountAt_first [OF assms(1)] obtain inp p' post where t: "text = pre @ inp"
    and f: "firstIs True rxSettledAmount (lastOr None pre, inp, None) (p', post, Some num)"
    by blast
  have "\<forall>j < length pre.
      rmatch True rxSettledAmount (lastOr None (take j pre), drop j pre @ inp, None) = []"
  proof (intro allI impI)
    fix j assume j: "j < length pre"
    show "rmatch True rxSettledAmount (lastOr None (take j pre), drop j pre @ inp, None) = []"
    proof (cases "rmatch True rxSettledAmount (lastOr None (take j pre), drop j pre @ inp, None)")
      case Nil
      then show ?thesis .
    next
      case (Cons st ms)
      obtain p1 r1 c1 where "st = (p1, r1, c1)" by (cases st) auto
      with Cons settledAmountAt_sound [of "take j pre" "drop j pre @ inp" p1 r1 c1 ms]
      obtain num' where "settledAmountAt (take j pre @ drop j pre @ inp) (take j pre) num'"
        by blast
      moreover have "take j pre @ drop j pre @ inp = text"
        by (simp only: t append_assoc [symmetric] append_take_drop_id)
      ultimately have "settledAmountAt text (take j pre) num'" by simp
      with assms(2) have "length pre \<le> length (take j pre)" by blast
      with j show ?thesis by simp
    qed
  qed
  from firstIs_execFrom [OF f this] t show ?thesis by blast
qed

lemma execFrom_settledAmount_none:
  assumes "\<forall>pre num. \<not> settledAmountAt text pre num"
  shows "execFrom True rxSettledAmount None text = None"
proof (cases "execFrom True rxSettledAmount None text")
  case None
  then show ?thesis .
next
  case (Some m)
  obtain sk p' r' c' where m: "m = (sk, p', r', c')" by (cases m) auto
  from execFrom_SomeD [OF Some [unfolded m]] obtain sfx ms where "text = sk @ sfx"
    "rmatch True rxSettledAmount (lastOr None sk, sfx, None) = (p', r', c') # ms" by blast
  with settledAmountAt_sound [of sk sfx p' r' c' ms] assms show ?thesis by blast
qed

lemma collapseSpaces_no_space: "\<forall>c \<in> set s. \<not> isSpace c \<Longrightarrow> collapseSpaces s = s"
  by (induction s) auto

lemma cleanText_plain:
  assumes "\<forall>c \<in> set s. \<not> isSpace c" "s = [] \<or> \<not> isColon (last s)"
  shows "cleanText (Some s) = s"
proof -
  have "160 \<notin> set s" using assms(1) by (auto simp add: isSpace_def)
  then have "\<forall>c \<in> set s. nbspToSpace c = c" by (auto simp add: nbspToSpace_def)
  then have "map nbspToSpace s = s" by (simp add: map_idI)
  moreover have "collapseSpaces s = s" using assms(1) by (rule collapseSpaces_no_space)
  moreover have "stripTrailingColons s = s" using assms(2) by (rule stripTrailingColons_id)
  moreover have "trim s = s"
  proof (rule trim_id)
    show "s = [] \<or> (\<not> isSpace (hd s) \<and> \<not> isSpace (last s))"
      using assms(1) by (cases s) auto
  qed
  ultimately show ?thesis by (simp add: cleanText_eq stringOrEmpty_Some)
qed

lemma isAmountText_chars:
  assumes "isAmountText num"
  shows "num \<noteq> []" "\<forall>c \<in> set num. isDigit c \<or> c = 44 \<or> c = 46"
proof -
  from assms obtain ds frac where n: "num = ds @ frac" and ds: "ds \<noteq> []"
    "list_all (\<lambda>c. isDigit c \<or> c = 44) ds" and fr: "isFraction frac"
    by (auto simp add: isAmountText_def)
  show "num \<noteq> []" using n ds(1) by simp
  have "\<forall>c \<in> set frac. isDigit c \<or> c = 46"
    using fr by (cases frac) (auto simp add: isFraction_def list_all_iff)
  with ds(2) show "\<forall>c \<in> set num. isDigit c \<or> c = 44 \<or> c = 46"
    by (auto simp add: n list_all_iff)
qed

lemma cleanText_amount: "isAmountText num \<Longrightarrow> cleanText (Some num) = num"
proof (rule cleanText_plain)
  assume a: "isAmountText num"
  note ch = isAmountText_chars [OF a]
  show "\<forall>c \<in> set num. \<not> isSpace c"
    using ch(2) by (auto simp add: isDigit_def isSpace_def)
  have "last num \<in> set num" using ch(1) by simp
  with ch(2) have "isDigit (last num) \<or> last num = 44 \<or> last num = 46" by blast
  then show "num = [] \<or> \<not> isColon (last num)" by (auto simp add: isDigit_def isColon_def)
qed

lemma settledAmount_extractCanonical:
  "settledAmount (extractCanonical lc doc tx)
     = jsOr (extractByRegex (Some (resolvedBodyText doc)) True rxSettledAmount) None"
  by (simp add: extractCanonical_def Let_def)

lemma invoiceNo_extractCanonical:
  "invoiceNo (extractCanonical lc doc tx)
     = jsOr (extractByRegex (Some (resolvedBodyText doc)) True rxInvoiceNo) (Some tx)"
  by (simp add: extractCanonical_def Let_def)

lemma creditedPartyAccountNo_extractCanonical:
  "creditedPartyAccountNo (extractCanonical lc doc tx)
     = pickExact (cleanRawPairs lc (extractReceiptRawPairs lc doc)) creditedPartyAccountNoKeys"
  by (simp add: extractCanonical_def Let_def)

subsection \<open>Evaluating the patterns on the examples\<close>

lemmas eval_regex =
  regexTest_def matchGroup1_def extractByRegex_def chEq_def inClass_def asciiUpper_def
  asciiLower_def atWordBoundary_def isWordChar_def isSpace_def

lemma resolvedBodyText_docSettled:
  "resolvedBodyText docSettled = js ''Settled Amount 1,234.50 Birr''"
proof -
  have "cleanText (Some (bodyText docSettled)) = js ''Settled Amount 1,234.50 Birr''"
    by (simp add: docSettled_def eval_text)
  then show ?thesis
    by (simp add: resolvedBodyText_def replaceAll_def rxDownloadThePdf_def js_Cons js_Nil
          replaceAllFrom_miss replaceAllFrom_Nil chEq_def asciiUpper_def)
qed

lemma resolvedBodyText_docEmpty: "resolvedBodyText docEmpty = []"
proof -
  have "cleanText (Some (bodyText docEmpty)) = []"
    by (simp add: docEmpty_def eval_text)
  then show ?thesis
    by (simp add: resolvedBodyText_def replaceAll_def rxDownloadThePdf_def js_Cons js_Nil
          replaceAllFrom_Nil)
qed

lemma settledAmountAt_sample:
  "settledAmountAt (js ''Settled Amount 1,234.50 Birr'') [] (js ''1,234.50'')"
proof -
  have "isAmountText (js ''1,234.50'')"
    unfolding isAmountText_def
    by (intro exI [of _ "js ''1,234''"] exI [of _ "js ''.50''"])
       (simp add: js_Cons js_Nil isDigit_def isFraction_def)
  then show ?thesis
    unfolding settledAmountAt_def
    by (intro exI [of _ "js ''Settled Amount''"] exI [of _ "[32]"] exI [of _ "js ''Birr''"]
          exI [of _ "[]"])
       (simp add: js_Cons js_Nil asciiLower_def isSpace_def)
qed

lemma settledAmountAt_Nil: "\<not> settledAmountAt [] pre num"
  by (auto simp add: settledAmountAt_def js_Cons)

lemma resolvedBodyText_docComma: "resolvedBodyText docComma = js ''Settled Amount , Birr''"
proof -
  have "cleanText (Some (bodyText docComma)) = js ''Settled Amount , Birr''"
    by (simp add: docComma_def eval_text)
  then show ?thesis
    by (simp add: resolvedBodyText_def replaceAll_def rxDownloadThePdf_def js_Cons js_Nil
          replaceAllFrom_miss replaceAllFrom_Nil chEq_def asciiUpper_def)
qed

lemma resolvedBodyText_docUnsettled: "resolvedBodyText docUnsettled = js ''UnSettled Amount 5 Birr''"
proof -
  have "cleanText (Some (bodyText docUnsettled)) = js ''UnSettled Amount 5 Birr''"
    by (simp add: docUnsettled_def eval_text)
  then show ?thesis
    by (simp add: resolvedBodyText_def replaceAll_def rxDownloadThePdf_def js_Cons js_Nil
          replaceAllFrom_miss replaceAllFrom_Nil chEq_def asciiUpper_def)
qed

lemma match_comma:
  "matchGroup1 True rxSettledAmount (js ''Settled Amount , Birr'') = Some (Some (js '',''))"
  by (simp add: rxSettledAmount_def eval_regex asciiLower_def js_Cons js_Nil isSpace_def)

lemma match_unsettled:
  "matchGroup1 True rxSettledAmount (js ''UnSettled Amount 5 Birr'') = None"
  by (simp add: rxSettledAmount_def eval_regex asciiLower_def js_Cons js_Nil isSpace_def)

subsection \<open>C1: the acceptance gate\<close>

text \<open>
  C1. For every canonical record the acceptance gate succeeds exactly when
  \<open>invoiceNo\<close>, \<open>settledAmount\<close> and \<open>creditedPartyAccountNo\<close> are all present
  (a non-empty string). Otherwise it raises \<open>PARSE_FAIL\<close>, whose details hold one presence
  flag for each of the three fields; a record without \<open>creditedPartyAccountNo\<close> always
  fails with \<open>hasCreditedPartyAccountNo = False\<close>, whatever the other fields hold.
\<close>

theorem acceptance_gate:
  "((\<exists>c'. requireCriticalFields c = Inr c')
      = (truthy (invoiceNo c) \<and> truthy (settledAmount c) \<and> truthy (creditedPartyAccountNo c)))
   \<and> (requireCriticalFields c = Inr c
        \<or> requireCriticalFields c =
             Inl (PARSE_FAIL \<lparr> hasInvoiceNo = truthy (invoiceNo c),
                               hasSettledAmount = truthy (settledAmount c),
                               hasCreditedPartyAccountNo = truthy (creditedPartyAccountNo c) \<rparr>))
   \<and> (\<not> truthy (creditedPartyAccountNo c) \<longrightarrow>
        (\<exists>d. requireCriticalFields c = Inl (PARSE_FAIL d) \<and> \<not> hasCreditedPartyAccountNo d))"
  by (simp add: requireCriticalFields_def)

theorem acceptance_gate_witness:
  "\<not> truthy (creditedPartyAccountNo (sampleRecord None))
   \<and> requireCriticalFields (sampleRecord None) =
       Inl (PARSE_FAIL \<lparr> hasInvoiceNo = True, hasSettledAmount = True,
                         hasCreditedPartyAccountNo = False \<rparr>)
   \<and> requireCriticalFields (sampleRecord (Some (js ''0911223344'')))
       = Inr (sampleRecord (Some (js ''0911223344'')))"
  using acceptance_gate [of "sampleRecord None"]
        acceptance_gate [of "sampleRecord (Some (js ''0911223344''))"]
  by (auto simp add: sampleRecord_def truthy_def js_Cons js_Nil)

subsection \<open>C2: the transaction code\<close>

text \<open>
  C2. The transaction code check \<open>/^[A-Za-z0-9]{10}$/.test(tx)\<close> succeeds exactly when
  \<open>tx\<close> has 10 characters, each an ASCII letter or digit. On any other string
  \<open>getReceiptCanonical\<close> fails with \<open>TX_FORMAT\<close>; on a string that passes it goes
  on with \<open>tx\<close> as it is (no case normalization). \<open>getReceiptFromUrl\<close> makes the same
  check on the code it extracts.
\<close>

theorem transaction_code_format:
  "(regexTest False rxTransactionCode tx = (length tx = 10 \<and> (\<forall>c \<in> set tx. isAsciiAlnum c)))
   \<and> (\<not> (length tx = 10 \<and> (\<forall>c \<in> set tx. isAsciiAlnum c)) \<longrightarrow>
        getReceiptCanonical pf tx = Inl (TX_FORMAT None))
   \<and> (length tx = 10 \<and> (\<forall>c \<in> set tx. isAsciiAlnum c) \<longrightarrow>
        getReceiptCanonical pf tx =
          (case assertAllowedHost (newURL pf (buildReceiptUrlFromTx pf tx)) of
             Inl e \<Rightarrow> Inl e
           | Inr ok \<Rightarrow>
               (case fetchReceiptWithPuppeteer pf (buildReceiptUrlFromTx pf tx) of
                  Inl e \<Rightarrow> Inl (FETCH_FAILED e)
                | Inr page \<Rightarrow> processFetched pf tx page)))
   \<and> (assertAllowedHost (newURL pf u) = Inr () \<and> extractTxFromUrl (newURL pf u) = Some tx
        \<and> tx \<noteq> [] \<longrightarrow>
        getReceiptFromUrl pf u =
          (if length tx = 10 \<and> (\<forall>c \<in> set tx. isAsciiAlnum c) then getReceiptCanonical pf tx
           else Inl (TX_FORMAT (Some (js ''Extracted code: '' @ [34] @ tx @ [34])))))"
  by (simp add: regexTest_transaction_code getReceiptCanonical_def getReceiptFromUrl_def Let_def)

theorem transaction_code_format_witness:
  "regexTest False rxTransactionCode (js ''AbCdE12345'')
   \<and> \<not> regexTest False rxTransactionCode (js ''ABCDE1234'')
   \<and> getReceiptCanonical (samplePlatform \<lparr> bodyText = [], tableRows = [] \<rparr>) (js ''ABCDE1234_'')
       = Inl (TX_FORMAT None)
   \<and> getReceiptCanonical (samplePlatform \<lparr> bodyText = [], tableRows = [] \<rparr>) (js ''AbCdE12345'')
       = processFetched (samplePlatform \<lparr> bodyText = [], tableRows = [] \<rparr>) (js ''AbCdE12345'')
           \<lparr> html = replicate 200 32, status = 200,
             finalUrl = js ''https://transactioninfo.ethiotelecom.et/receipt/AbCdE12345'' \<rparr>
   \<and> getReceiptFromUrl (samplePlatform \<lparr> bodyText = [], tableRows = [] \<rparr>)
         (js ''https://transactioninfo.ethiotelecom.et/receipt/ABCDE1234_'')
       = Inl (TX_FORMAT (Some (js ''Extracted code: '' @ [34] @ js ''ABCDE1234_'' @ [34])))"
  using transaction_code_format [of "js ''AbCdE12345''" "samplePlatform \<lparr> bodyText = [], tableRows = [] \<rparr>"
          "js ''https://transactioninfo.ethiotelecom.et/receipt/AbCdE12345''"]
        transaction_code_format [of "js ''ABCDE1234''" "samplePlatform \<lparr> bodyText = [], tableRows = [] \<rparr>"
          "js ''https://transactioninfo.ethiotelecom.et/receipt/ABCDE1234''"]
        transaction_code_format [of "js ''ABCDE1234_''" "samplePlatform \<lparr> bodyText = [], tableRows = [] \<rparr>"
          "js ''https://transactioninfo.ethiotelecom.et/receipt/ABCDE1234_''"]
  by (simp add: eval_url samplePlatform_def
        buildReceiptUrlFromTx_def RECEIPT_URL_TEMPLATE_def stringOrEmpty_def jsOr_def truthy_def
        assertAllowedHost_def ALLOWED_HOSTS_def extractTxFromUrl_def pathParts_def)

subsection \<open>C3: the URL safety gate\<close>

lemma plainURL_SomeD:
  "plainURL s = Some u \<Longrightarrow>
     protocol u = map asciiLower (schemeText s) @ [58] \<and> hostname u = map asciiLower (hostText s)"
  by (auto simp add: plainURL_def split: if_splits)

text \<open>
  C3 as stated says that the host is matched case-sensitively. The gate compares the host
  name of the parsed URL, which the parser has lower-cased, as it has the scheme: a URL
  whose host, or scheme, is written with capital letters is accepted, although its host
  text is not a member of the allow-list.
\<close>

theorem assertAllowedHost_ignores_case:
  "assertAllowedHost (newURL (samplePlatform docEmpty)
       (js ''http://TransactionInfo.ethiotelecom.et/receipt/ABCDE12345'')) = Inr ()
   \<and> hostText (js ''http://TransactionInfo.ethiotelecom.et/receipt/ABCDE12345'')
       = js ''TransactionInfo.ethiotelecom.et''
   \<and> js ''TransactionInfo.ethiotelecom.et'' \<notin> set ALLOWED_HOSTS
   \<and> assertAllowedHost (newURL (samplePlatform docEmpty)
       (js ''HTTPS://TRANSACTIONINFO.ETHIOTELECOM.ET/receipt/ABCDE12345'')) = Inr ()"
  by (simp add: sample_newURL eval_url assertAllowedHost_def ALLOWED_HOSTS_def)

text \<open>
  C3, amended. For every URL text \<open>s\<close> the gate fails with \<open>INVALID_URL\<close> exactly when
  \<open>s\<close> does not parse. When it parses, the gate fails with \<open>INVALID_PROTOCOL\<close> exactly
  when the protocol of the parsed URL is neither \<open>http:\<close> nor \<open>https:\<close>; with such a
  protocol it fails with \<open>HOST_NOT_ALLOWED\<close> exactly when the host name of the parsed URL
  is not the one allowed name (equality of strings: no subdomain, no wildcard); otherwise
  it succeeds. The comparison is made on the parsed URL: on a plain URL text
  \<open>scheme://host/path\<close>, where the parser lower-cases the scheme and the host, the gate
  succeeds exactly when the scheme is \<open>http\<close> or \<open>https\<close> and the host is the allowed
  name, both in any case.
\<close>

theorem assertAllowedHost_url:
  "((assertAllowedHost (newURL pf s) = Inl INVALID_URL) = (newURL pf s = None))
   \<and> (\<forall>u. newURL pf s = Some u \<longrightarrow>
         ((assertAllowedHost (newURL pf s) = Inl INVALID_PROTOCOL)
            = (protocol u \<noteq> js ''http:'' \<and> protocol u \<noteq> js ''https:''))
         \<and> ((\<exists>d. assertAllowedHost (newURL pf s) = Inl (HOST_NOT_ALLOWED d))
              = ((protocol u = js ''http:'' \<or> protocol u = js ''https:'')
                 \<and> hostname u \<noteq> js ''transactioninfo.ethiotelecom.et''))
         \<and> ((assertAllowedHost (newURL pf s) = Inr ())
              = ((protocol u = js ''http:'' \<or> protocol u = js ''https:'')
                 \<and> hostname u = js ''transactioninfo.ethiotelecom.et'')))
   \<and> (\<forall>u. plainURL s = Some u \<and> newURL pf s = Some u \<longrightarrow>
         ((assertAllowedHost (newURL pf s) = Inr ())
            = ((map asciiLower (schemeText s) = js ''http''
                \<or> map asciiLower (schemeText s) = js ''https'')
               \<and> map asciiLower (hostText s) = js ''transactioninfo.ethiotelecom.et'')))"
proof -
  have a: "(assertAllowedHost (newURL pf s) = Inl INVALID_URL) = (newURL pf s = None)"
    by (cases "newURL pf s") (auto simp add: assertAllowedHost_def)
  have b: "(assertAllowedHost (Some u) = Inl INVALID_PROTOCOL)
            = (protocol u \<noteq> js ''http:'' \<and> protocol u \<noteq> js ''https:'')" for u
    by (auto simp add: assertAllowedHost_def)
  have c: "(\<exists>d. assertAllowedHost (Some u) = Inl (HOST_NOT_ALLOWED d))
              = ((protocol u = js ''http:'' \<or> protocol u = js ''https:'')
                 \<and> hostname u \<noteq> js ''transactioninfo.ethiotelecom.et'')" for u
    by (auto simp add: assertAllowedHost_def ALLOWED_HOSTS_def)
  have d: "(assertAllowedHost (Some u) = Inr ())
              = ((protocol u = js ''http:'' \<or> protocol u = js ''https:'')
                 \<and> hostname u = js ''transactioninfo.ethiotelecom.et'')" for u
    by (auto simp add: assertAllowedHost_def ALLOWED_HOSTS_def)
  have e: "(assertAllowedHost (Some u) = Inr ())
            = ((map asciiLower (schemeText s) = js ''http''
                \<or> map asciiLower (schemeText s) = js ''https'')
               \<and> map asciiLower (hostText s) = js ''transactioninfo.ethiotelecom.et'')"
    if "plainURL s = Some u" for u
  proof -
    from plainURL_SomeD [OF that]
    have p: "protocol u = map asciiLower (schemeText s) @ [58]"
      and h: "hostname u = map asciiLower (hostText s)" by simp_all
    have "js ''http:'' = js ''http'' @ [58]" "js ''https:'' = js ''https'' @ [58]"
      by (simp_all add: js_Cons js_Nil)
    then have "(protocol u = js ''http:'') = (map asciiLower (schemeText s) = js ''http'')"
      "(protocol u = js ''https:'') = (map asciiLower (schemeText s) = js ''https'')"
      unfolding p by simp_all
    then show ?thesis unfolding d h by simp
  qed
  from a b c d e show ?thesis by simp
qed

theorem assertAllowedHost_url_witness:
  "assertAllowedHost (newURL (samplePlatform docEmpty)
       (js ''https://transactioninfo.ethiotelecom.et/receipt/ABCDE12345'')) = Inr ()
   \<and> assertAllowedHost (newURL (samplePlatform docEmpty)
       (js ''Https://Transactioninfo.EthioTelecom.ET/receipt/ABCDE12345'')) = Inr ()
   \<and> (\<exists>d. assertAllowedHost (newURL (samplePlatform docEmpty)
       (js ''https://www.transactioninfo.ethiotelecom.et/receipt/ABCDE12345''))
          = Inl (HOST_NOT_ALLOWED d))
   \<and> (\<exists>d. assertAllowedHost (newURL (samplePlatform docEmpty)
       (js ''https://ethiotelecom.et/receipt/ABCDE12345'')) = Inl (HOST_NOT_ALLOWED d))
   \<and> assertAllowedHost (newURL (samplePlatform docEmpty)
       (js ''ftp://transactioninfo.ethiotelecom.et/receipt/ABCDE12345'')) = Inl INVALID_PROTOCOL
   \<and> assertAllowedHost (newURL (samplePlatform docEmpty) (js ''not a url'')) = Inl INVALID_URL"
proof -
  have p1: "plainURL (js ''Https://Transactioninfo.EthioTelecom.ET/receipt/ABCDE12345'')
      = Some (samplePathUrl (js ''/receipt/ABCDE12345'') [])"
    by (simp add: eval_url samplePathUrl_def)
  have p2: "plainURL (js ''https://www.transactioninfo.ethiotelecom.et/receipt/ABCDE12345'')
      = Some ((samplePathUrl (js ''/receipt/ABCDE12345'') [])
               \<lparr> hostname := js ''www.transactioninfo.ethiotelecom.et'' \<rparr>)"
    by (simp add: eval_url samplePathUrl_def)
  have p3: "plainURL (js ''https://ethiotelecom.et/receipt/ABCDE12345'')
      = Some ((samplePathUrl (js ''/receipt/ABCDE12345'') [])
               \<lparr> hostname := js ''ethiotelecom.et'' \<rparr>)"
    by (simp add: eval_url samplePathUrl_def)
  have p4: "plainURL (js ''ftp://transactioninfo.ethiotelecom.et/receipt/ABCDE12345'')
      = Some ((samplePathUrl (js ''/receipt/ABCDE12345'') []) \<lparr> protocol := js ''ftp:'' \<rparr>)"
    by (simp add: eval_url samplePathUrl_def)
  have p5: "plainURL (js ''not a url'') = None"
    by (simp add: eval_url)
  show ?thesis
    using assertAllowedHost_url [of "samplePlatform docEmpty"
            "js ''https://transactioninfo.ethiotelecom.et/receipt/ABCDE12345''"]
          assertAllowedHost_url [of "samplePlatform docEmpty"
            "js ''Https://Transactioninfo.EthioTelecom.ET/receipt/ABCDE12345''"]
          assertAllowedHost_url [of "samplePlatform docEmpty"
            "js ''https://www.transactioninfo.ethiotelecom.et/receipt/ABCDE12345''"]
          assertAllowedHost_url [of "samplePlatform docEmpty"
            "js ''https://ethiotelecom.et/receipt/ABCDE12345''"]
          assertAllowedHost_url [of "samplePlatform docEmpty"
            "js ''ftp://transactioninfo.ethiotelecom.et/receipt/ABCDE12345''"]
          assertAllowedHost_url [of "samplePlatform docEmpty" "js ''not a url''"]
    unfolding sample_newURL sample_parse p1 p2 p3 p4 p5
    by (simp add: samplePathUrl_def js_Cons js_Nil)
qed

subsection \<open>C4: the raw pair extractor\<close>

text \<open>
  C4 as stated pairs the cleaned cell texts and stores every pair with two non-empty sides
  under its label. The source reads a cell through \<open>cellTextNoLinks\<close>, which empties a
  cell whose cleaned text is a PDF download label: the row
  \<open>("Receipt", "Download PDF")\<close> stores nothing. And a label that is a key of
  \<open>Object.prototype\<close> is never stored, since \<open>raw[k]\<close> is then truthy from the
  start: the row \<open>("constructor", "x")\<close> stores nothing.
\<close>

theorem extractReceiptRawPairs_unstored_pairs:
  "extractReceiptRawPairs (map asciiLower) docPdfLabel (js ''Receipt'') = None
   \<and> map_of (claimedPairs docPdfLabel) (js ''Receipt'') = Some (js ''Download PDF'')
   \<and> extractReceiptRawPairs (map asciiLower) docConstructor (js ''constructor'') = None
   \<and> map_of (claimedPairs docConstructor) (js ''constructor'') = Some (js ''x'')"
proof -
  have "extractReceiptRawPairs (map asciiLower) docPdfLabel (js ''Receipt'') = None"
    by (simp add: extractReceiptRawPairs_def docPdfLabel_def rowStep_def cellText_samples)
  moreover have "map_of (claimedPairs docPdfLabel) (js ''Receipt'') = Some (js ''Download PDF'')"
    by (simp add: claimedPairs_def pairsOf_def docPdfLabel_def cleanText_samples)
       (simp add: js_Cons js_Nil)
  moreover have "extractReceiptRawPairs (map asciiLower) docConstructor (js ''constructor'') = None"
    by (simp add: extractReceiptRawPairs_def docConstructor_def rowStep_def cellText_more
          getTruthy_def objectPrototypeKeys_def)
  moreover have "map_of (claimedPairs docConstructor) (js ''constructor'') = Some (js ''x'')"
    by (simp add: claimedPairs_def pairsOf_def docConstructor_def cleanText_more)
       (simp add: js_Cons js_Nil)
  ultimately show ?thesis by simp
qed

text \<open>
  C4, amended. With the cells read through \<open>cellTextNoLinks\<close> (the cleaned text, or
  the empty string when that is a PDF download label): rows of fewer than 2 cells are
  skipped, the cells of the other rows are paired consecutively, a last cell without
  partner is dropped, a pair with an empty side is skipped, and under every label that is
  not a key of \<open>Object.prototype\<close> the extractor holds the value of the first such pair
  with that label in the document (\<open>map_of\<close> finds the first), or nothing when there is
  none.
\<close>

theorem extractReceiptRawPairs_first_wins:
  "k \<notin> set objectPrototypeKeys \<Longrightarrow>
     extractReceiptRawPairs lc doc k = map_of (storedPairs lc doc) k"
  by (simp add: extractReceiptRawPairs_def storedPairs_def pairsOf_def
        foldl_rowStep_lookup [OF rawInv_empty])

theorem extractReceiptRawPairs_first_wins_witness:
  "js ''Payer Name'' \<notin> set objectPrototypeKeys
   \<and> extractReceiptRawPairs (map asciiLower) docPayerTwice (js ''Payer Name'')
       = Some (js ''Abebe Kebede'')"
  using extractReceiptRawPairs_first_wins [OF payer_not_prototype, of "map asciiLower" docPayerTwice]
  by (simp add: payer_not_prototype storedPairs_def pairsOf_def docPayerTwice_def cellText_samples)
     (simp add: js_Cons js_Nil)

subsection \<open>C5: the settled amount\<close>

text \<open>
  C5 as stated speaks of a decimal number after the anchor. The pattern takes any
  non-empty run of digits and commas: \<open>Settled Amount , Birr\<close> resolves to the comma,
  which has no digit. And the anchor must start at a word boundary:
  \<open>UnSettled Amount 5 Birr\<close> contains \<open>Settled Amount 5 Birr\<close> and resolves to nothing.
\<close>

theorem settledAmount_not_as_worded:
  "settledAmount (extractCanonical (map asciiLower) docComma (js ''ABCDE12345'')) = Some (js '','')
   \<and> \<not> list_ex isDigit (js '','')
   \<and> sublist (js ''Settled Amount 5 Birr'') (resolvedBodyText docUnsettled)
   \<and> settledAmount (extractCanonical (map asciiLower) docUnsettled (js ''ABCDE12345'')) = None"
proof -
  have "cleanText (Some (js '','')) = js '',''" by (simp add: eval_text)
  then have "settledAmount (extractCanonical (map asciiLower) docComma (js ''ABCDE12345''))
      = Some (js '','')"
    by (simp add: settledAmount_extractCanonical resolvedBodyText_docComma extractByRegex_def
          stringOrEmpty_Some match_comma jsOr_def truthy_def)
       (simp add: js_Cons)
  moreover have "\<not> list_ex isDigit (js '','')" by (simp add: js_Cons js_Nil isDigit_def)
  moreover have "sublist (js ''Settled Amount 5 Birr'') (resolvedBodyText docUnsettled)"
    by (simp add: resolvedBodyText_docUnsettled js_Cons js_Nil sublist_code)
  moreover have "settledAmount (extractCanonical (map asciiLower) docUnsettled (js ''ABCDE12345'')) = None"
    by (simp add: settledAmount_extractCanonical resolvedBodyText_docUnsettled extractByRegex_def
          stringOrEmpty_Some match_unsettled jsOr_def truthy_def)
  ultimately show ?thesis by simp
qed

text \<open>
  C5, amended. Let the body text be the cleaned text of the page body with every
  \<open>download the pdf\<close> removed. If at some place of it, not right after a word
  character, stands \<open>Settled Amount\<close> (in any case), white space if any, an amount text
  (a non-empty run of digits and commas, optionally a point and one or two digits), white
  space if any, and \<open>Birr\<close> (in any case) not followed by a word character, then
  \<open>settledAmount\<close> is that amount text alone, taken at the first such place. If there
  is no such place, \<open>settledAmount\<close> is absent. The example
  \<open>Settled Amount 1,234.50 Birr\<close> is evaluated after the theorem.
\<close>

theorem settledAmount_resolved:
  "(settledAmountAt (resolvedBodyText doc) pre num
      \<and> (\<forall>pre' num'. settledAmountAt (resolvedBodyText doc) pre' num' \<longrightarrow> length pre \<le> length pre')
     \<longrightarrow> settledAmount (extractCanonical lc doc tx) = Some num)
   \<and> ((\<forall>pre' num'. \<not> settledAmountAt (resolvedBodyText doc) pre' num')
     \<longrightarrow> settledAmount (extractCanonical lc doc tx) = None)"
proof (intro conjI impI)
  assume h: "settledAmountAt (resolvedBodyText doc) pre num
      \<and> (\<forall>pre' num'. settledAmountAt (resolvedBodyText doc) pre' num' \<longrightarrow> length pre \<le> length pre')"
  then have a: "isAmountText num" unfolding settledAmountAt_def by blast
  from h execFrom_settledAmount_first [of "resolvedBodyText doc" pre num]
  obtain p' post where
    "execFrom True rxSettledAmount None (resolvedBodyText doc) = Some (pre, (p', post, Some num))"
    by blast
  then have "extractByRegex (Some (resolvedBodyText doc)) True rxSettledAmount = Some num"
    by (simp add: extractByRegex_def matchGroup1_def stringOrEmpty_Some cleanText_amount [OF a])
  with isAmountText_chars(1) [OF a]
  show "settledAmount (extractCanonical lc doc tx) = Some num"
    by (simp add: settledAmount_extractCanonical jsOr_def truthy_def)
next
  assume "\<forall>pre' num'. \<not> settledAmountAt (resolvedBodyText doc) pre' num'"
  from execFrom_settledAmount_none [OF this]
  have "extractByRegex (Some (resolvedBodyText doc)) True rxSettledAmount = None"
    by (simp add: extractByRegex_def matchGroup1_def stringOrEmpty_Some)
  then show "settledAmount (extractCanonical lc doc tx) = None"
    by (simp add: settledAmount_extractCanonical jsOr_def truthy_def)
qed

theorem settledAmount_resolved_witness:
  "settledAmountAt (resolvedBodyText docSettled) [] (js ''1,234.50'')
   \<and> settledAmount (extractCanonical (map asciiLower) docSettled (js ''ABCDE12345''))
       = Some (js ''1,234.50'')
   \<and> settledAmount (extractCanonical (map asciiLower) docEmpty (js ''ABCDE12345'')) = None"
  using settledAmount_resolved [of docSettled "[]" "js ''1,234.50''" "map asciiLower" "js ''ABCDE12345''"]
        settledAmount_resolved [of docEmpty "[]" "[]" "map asciiLower" "js ''ABCDE12345''"]
  by (simp add: resolvedBodyText_docSettled resolvedBodyText_docEmpty settledAmountAt_sample
        settledAmountAt_Nil)

subsection \<open>C6: the not-found short circuit\<close>

lemma docNotFound_phrase:
  "hasNotFoundPhrase (cleanText (Some (bodyText docNotFound)))"
proof -
  have "cleanText (Some (bodyText docNotFound)) = js ''Invalid Invoice number''"
    by (simp add: docNotFound_def eval_text)
  then show ?thesis
    by (simp add: hasNotFoundPhrase_def notFoundPhrases_def containsIgnoringCase_def
          js_Cons js_Nil asciiLower_def sublist_code)
qed

text \<open>
  C6 as stated holds of every fetched page. A page of fewer than 200 characters is
  rejected with \<open>EMPTY_HTML\<close> before its text is read, whatever the text says.
\<close>

theorem not_found_short_page:
  "hasNotFoundPhrase (cleanText (Some (bodyText
       (cheerioLoad (samplePlatform docNotFound) (html shortPage)))))
   \<and> processFetched (samplePlatform docNotFound) (js ''ABCDE12345'') shortPage = Inl EMPTY_HTML"
  by (simp add: sample_load docNotFound_phrase processFetched_def shortPage_def length_js)

text \<open>
  C6, amended. A fetched page of fewer than 200 characters raises \<open>EMPTY_HTML\<close>,
  whatever its text. For a fetched page of at least 200 characters whose cleaned body text
  contains one of the phrases \<open>no data\<close>, \<open>not found\<close>, \<open>invalid invoice\<close>,
  \<open>does not exist\<close>, ignoring case, the pipeline raises \<open>TX_NOT_FOUND\<close>: no field is
  resolved and no record is returned, whatever the fields would resolve to.
\<close>

theorem not_found_short_circuit:
  "(length (html page) < 200 \<longrightarrow>
      processFetched pf tx page = Inl EMPTY_HTML
      \<and> (regexTest False rxTransactionCode tx
           \<and> assertAllowedHost (newURL pf (buildReceiptUrlFromTx pf tx)) = Inr ()
           \<and> fetchReceiptWithPuppeteer pf (buildReceiptUrlFromTx pf tx) = Inr page
         \<longrightarrow> getReceiptCanonical pf tx = Inl EMPTY_HTML))
   \<and> (200 \<le> length (html page)
       \<and> hasNotFoundPhrase (cleanText (Some (bodyText (cheerioLoad pf (html page))))) \<longrightarrow>
      processFetched pf tx page = Inl TX_NOT_FOUND
      \<and> (regexTest False rxTransactionCode tx
           \<and> assertAllowedHost (newURL pf (buildReceiptUrlFromTx pf tx)) = Inr ()
           \<and> fetchReceiptWithPuppeteer pf (buildReceiptUrlFromTx pf tx) = Inr page
         \<longrightarrow> getReceiptCanonical pf tx = Inl TX_NOT_FOUND))"
proof -
  have short: "processFetched pf tx page = Inl EMPTY_HTML" if "length (html page) < 200"
    using that by (simp add: processFetched_def)
  have found: "processFetched pf tx page = Inl TX_NOT_FOUND"
    if "200 \<le> length (html page)"
      and "hasNotFoundPhrase (cleanText (Some (bodyText (cheerioLoad pf (html page)))))"
    using that by (auto simp add: processFetched_def Let_def regexTest_rxNotFound)
  have run: "getReceiptCanonical pf tx = processFetched pf tx page"
    if "regexTest False rxTransactionCode tx"
      and "assertAllowedHost (newURL pf (buildReceiptUrlFromTx pf tx)) = Inr ()"
      and "fetchReceiptWithPuppeteer pf (buildReceiptUrlFromTx pf tx) = Inr page"
    using that by (simp add: getReceiptCanonical_def Let_def)
  from short found run show ?thesis by simp
qed

theorem not_found_short_circuit_witness:
  "200 \<le> length (html longPage)
   \<and> hasNotFoundPhrase (cleanText (Some (bodyText
         (cheerioLoad (samplePlatform docNotFound) (html longPage)))))
   \<and> processFetched (samplePlatform docNotFound) (js ''ABCDE12345'') longPage = Inl TX_NOT_FOUND
   \<and> getReceiptCanonical (samplePlatform docNotFound) (js ''ABCDE12345'') = Inl TX_NOT_FOUND
   \<and> length (html (longPage\<lparr> html := replicate 199 32 \<rparr>)) < 200
   \<and> hasNotFoundPhrase (cleanText (Some (bodyText
         (cheerioLoad (samplePlatform docNotFound) (html (longPage\<lparr> html := replicate 199 32 \<rparr>))))))
   \<and> processFetched (samplePlatform docNotFound) (js ''ABCDE12345'')
         (longPage\<lparr> html := replicate 199 32 \<rparr>) = Inl EMPTY_HTML"
proof -
  have l: "200 \<le> length (html longPage)" by (simp add: longPage_def)
  have p: "hasNotFoundPhrase (cleanText (Some (bodyText
         (cheerioLoad (samplePlatform docNotFound) h))))" for h
    by (simp add: sample_load docNotFound_phrase)
  from not_found_short_circuit [of longPage "samplePlatform docNotFound" "js ''ABCDE12345''"]
    not_found_short_circuit [of "longPage\<lparr> html := replicate 199 32 \<rparr>"
      "samplePlatform docNotFound" "js ''ABCDE12345''"] l p
  show ?thesis
    by (simp add: sample_receiptUrl sample_gate sample_fetch sample_code)
qed

subsection \<open>C7: cleaning twice\<close>

text \<open>
  C7 as stated: \<open>cleanText\<close> is idempotent. The colons at the end are removed before
  the text is trimmed, so \<open>"a: "\<close> is cleaned to \<open>"a:"\<close>, which is cleaned to
  \<open>"a"\<close>.
\<close>

theorem cleanText_not_idempotent:
  "cleanText (Some (cleanText (Some (js ''a: '')))) \<noteq> cleanText (Some (js ''a: ''))"
proof -
  have "cleanText (Some (js ''a: '')) = js ''a:''"
    by (simp add: cleanText_eq stringOrEmpty_Some js_Cons js_Nil nbspToSpace_def isSpace_def
          stripTrailingColons_def isColon_def trim_def)
  moreover have "cleanText (Some (js ''a:'')) = js ''a''"
    by (simp add: cleanText_eq stringOrEmpty_Some js_Cons js_Nil nbspToSpace_def isSpace_def
          stripTrailingColons_def isColon_def trim_def)
  ultimately show ?thesis by (simp add: js_Cons js_Nil)
qed

text \<open>
  C7, amended. \<open>cleanText(cleanText(s))\<close> equals \<open>cleanText(s)\<close> exactly when
  \<open>cleanText(s)\<close> does not end with a colon (ASCII or full-width).
\<close>

theorem cleanText_idempotent_iff:
  "(cleanText (Some (cleanText t)) = cleanText t)
     = (cleanText t = [] \<or> \<not> isColon (last (cleanText t)))"
proof (cases "cleanText t = [] \<or> \<not> isColon (last (cleanText t))")
  case True
  then have "stripTrailingColons (cleanText t) = cleanText t"
    by (rule stripTrailingColons_id)
  moreover have "trim (cleanText t) = cleanText t"
    using cleanText_ends [of t] by (rule trim_id)
  ultimately show ?thesis using True by (simp add: cleanText_twice)
next
  case False
  then have "length (stripTrailingColons (cleanText t)) < length (cleanText t)"
    by (intro stripTrailingColons_shorter) auto
  with length_trim [of "stripTrailingColons (cleanText t)"]
  have "length (cleanText (Some (cleanText t))) < length (cleanText t)"
    by (simp add: cleanText_twice)
  then have "cleanText (Some (cleanText t)) \<noteq> cleanText t" by auto
  with False show ?thesis by simp
qed

theorem cleanText_idempotent_iff_witness:
  "cleanText (Some (cleanText (Some ([160] @ js ''Payer  Name:''))))
     = cleanText (Some ([160] @ js ''Payer  Name:''))
   \<and> cleanText (Some ([160] @ js ''Payer  Name:'')) = js ''Payer Name''"
proof -
  have c: "cleanText (Some ([160] @ js ''Payer  Name:'')) = js ''Payer Name''"
    by (simp add: cleanText_eq stringOrEmpty_Some js_Cons js_Nil nbspToSpace_def isSpace_def
          stripTrailingColons_def isColon_def trim_def)
  with cleanText_idempotent_iff [of "Some ([160] @ js ''Payer  Name:'')"] show ?thesis
    by (simp add: js_Cons js_Nil isColon_def)
qed

subsection \<open>C8: the transaction code of a URL\<close>

text \<open>
  C8. \<open>extractTxFromUrl\<close> is called by \<open>getReceiptFromUrl\<close> only, after the URL
  safety gate, which has rejected a URL that does not parse with \<open>INVALID_URL\<close>: the
  recovery runs on a parsed URL. With \<open>pathParts\<close> the non-empty segments of its path:
  (a) if there are at least two and the first is \<open>receipt\<close>, the result is the second;
  otherwise (b) the \<open>tx\<close> query parameter if it is non-empty, else the \<open>id\<close> query
  parameter if it is non-empty; otherwise (c) the last segment. The result is \<open>null\<close>
  only if the path has no non-empty segment (and then exactly when neither parameter is
  non-empty).
\<close>

theorem extractTxFromUrl_order:
  "(length (pathParts u) \<ge> 2 \<and> pathParts u ! 0 = js ''receipt'' \<longrightarrow>
        extractTxFromUrl (Some u) = Some (pathParts u ! 1))
   \<and> (\<not> (length (pathParts u) \<ge> 2 \<and> pathParts u ! 0 = js ''receipt'') \<longrightarrow>
        extractTxFromUrl (Some u) =
          (if truthy (map_of (searchParams u) (js ''tx'')) then map_of (searchParams u) (js ''tx'')
           else if truthy (map_of (searchParams u) (js ''id'')) then map_of (searchParams u) (js ''id'')
           else if pathParts u \<noteq> [] then Some (last (pathParts u))
           else None))
   \<and> ((extractTxFromUrl (Some u) = None)
        = (pathParts u = []
           \<and> \<not> truthy (map_of (searchParams u) (js ''tx''))
           \<and> \<not> truthy (map_of (searchParams u) (js ''id''))))
   \<and> (newURL pf s = None \<longrightarrow> getReceiptFromUrl pf s = Inl INVALID_URL)
   \<and> (newURL pf s = Some u \<and> assertAllowedHost (Some u) = Inr ()
        \<and> extractTxFromUrl (Some u) = None \<longrightarrow>
        pathParts u = [] \<and> getReceiptFromUrl pf s = Inl TX_EXTRACT_FAILED)"
proof -
  have tail: "jsOr (lastPart (pathParts v)) None = lastPart (pathParts v)" for v
    using truthy_lastPart [of v] by (auto simp add: jsOr_def lastPart_def)
  have b: "length (pathParts u) \<ge> 2 \<and> pathParts u ! 0 = js ''receipt'' \<longrightarrow>
        extractTxFromUrl (Some u) = Some (pathParts u ! 1)"
    by (simp add: extractTxFromUrl_def)
  have c: "\<not> (length (pathParts u) \<ge> 2 \<and> pathParts u ! 0 = js ''receipt'') \<longrightarrow>
        extractTxFromUrl (Some u) =
          (if truthy (map_of (searchParams u) (js ''tx'')) then map_of (searchParams u) (js ''tx'')
           else if truthy (map_of (searchParams u) (js ''id'')) then map_of (searchParams u) (js ''id'')
           else if pathParts u \<noteq> [] then Some (last (pathParts u))
           else None)"
  proof -
    have "jsOr (map_of (searchParams u) (js ''tx'')) (map_of (searchParams u) (js ''id''))
        = (if truthy (map_of (searchParams u) (js ''tx'')) then map_of (searchParams u) (js ''tx'')
           else map_of (searchParams u) (js ''id''))"
      by (simp add: jsOr_def)
    then show ?thesis
      unfolding extractTxFromUrl_def Let_def tail
      by (simp add: lastPart_def)
  qed
  have d: "(extractTxFromUrl (Some u) = None)
        = (pathParts u = []
           \<and> \<not> truthy (map_of (searchParams u) (js ''tx''))
           \<and> \<not> truthy (map_of (searchParams u) (js ''id'')))"
  proof (cases "length (pathParts u) \<ge> 2 \<and> pathParts u ! 0 = js ''receipt''")
    case True
    then have "pathParts u \<noteq> []" by auto
    with True show ?thesis by (simp add: extractTxFromUrl_def)
  next
    case False
    with c show ?thesis by (auto simp add: truthy_iff)
  qed
  have e: "newURL pf s = None \<longrightarrow> getReceiptFromUrl pf s = Inl INVALID_URL"
    by (simp add: getReceiptFromUrl_def assertAllowedHost_def)
  have f: "newURL pf s = Some u \<and> assertAllowedHost (Some u) = Inr ()
        \<and> extractTxFromUrl (Some u) = None \<longrightarrow>
        getReceiptFromUrl pf s = Inl TX_EXTRACT_FAILED"
    by (simp add: getReceiptFromUrl_def)
  from b c d e f show ?thesis by blast
qed

theorem extractTxFromUrl_order_witness:
  "extractTxFromUrl (Some (samplePathUrl (js ''/receipt/ABCDE12345'') [])) = Some (js ''ABCDE12345'')
   \<and> extractTxFromUrl (Some (samplePathUrl (js ''/view'')
           [(js ''id'', js ''ID00000001''), (js ''tx'', js ''TX00000001'')])) = Some (js ''TX00000001'')
   \<and> extractTxFromUrl (Some (samplePathUrl (js ''/view'')
           [(js ''tx'', []), (js ''id'', js ''ID00000001'')])) = Some (js ''ID00000001'')
   \<and> extractTxFromUrl (Some (samplePathUrl (js ''/a/b/'') [(js ''tx'', [])])) = Some (js ''b'')
   \<and> extractTxFromUrl (Some (samplePathUrl (js ''/'') [])) = None
   \<and> newURL (samplePlatform docEmpty) (js ''https://transactioninfo.ethiotelecom.et/'')
       = Some (samplePathUrl (js ''/'') [])
   \<and> getReceiptFromUrl (samplePlatform docEmpty) (js ''https://transactioninfo.ethiotelecom.et/'')
       = Inl TX_EXTRACT_FAILED
   \<and> newURL (samplePlatform docEmpty) (js ''not a url'') = None
   \<and> getReceiptFromUrl (samplePlatform docEmpty) (js ''not a url'') = Inl INVALID_URL"
proof -
  have p1: "plainURL (js ''https://transactioninfo.ethiotelecom.et/'')
      = Some (samplePathUrl (js ''/'') [])"
    by (simp add: eval_url samplePathUrl_def)
  have p2: "plainURL (js ''not a url'') = None"
    by (simp add: eval_url)
  have g: "assertAllowedHost (Some (samplePathUrl (js ''/'') [])) = Inr ()"
    by (simp add: assertAllowedHost_def ALLOWED_HOSTS_def samplePathUrl_def)
  show ?thesis
    using g
          extractTxFromUrl_order [of "samplePathUrl (js ''/receipt/ABCDE12345'') []"
            "samplePlatform docEmpty" "js ''not a url''"]
          extractTxFromUrl_order [of "samplePathUrl (js ''/view'')
             [(js ''id'', js ''ID00000001''), (js ''tx'', js ''TX00000001'')]"
            "samplePlatform docEmpty" "js ''not a url''"]
          extractTxFromUrl_order [of "samplePathUrl (js ''/view'')
             [(js ''tx'', []), (js ''id'', js ''ID00000001'')]"
            "samplePlatform docEmpty" "js ''not a url''"]
          extractTxFromUrl_order [of "samplePathUrl (js ''/a/b/'') [(js ''tx'', [])]"
            "samplePlatform docEmpty" "js ''not a url''"]
          extractTxFromUrl_order [of "samplePathUrl (js ''/'') []"
            "samplePlatform docEmpty" "js ''https://transactioninfo.ethiotelecom.et/''"]
    unfolding sample_newURL p1 p2
    by (simp add: pathParts_def samplePathUrl_def js_Cons js_Nil truthy_def)
qed

subsection \<open>C9: name segmentation\<close>

text \<open>
  C9. Name segmentation returns \<open>null\<close> exactly when the cleaned input is empty.
  Otherwise, with the tokens of the cleaned name (its maximal runs of characters that are
  not white space): \<open>first\<close>, \<open>father\<close> and \<open>grandfather\<close> are tokens 1, 2 and 3,
  absent where the name has fewer; \<open>rest\<close> is the remaining tokens joined with single
  spaces, absent when there are none; \<open>full\<close> is the tokens joined with single spaces,
  which is the cleaned name itself. No token is empty.
\<close>

theorem parseEthiopianName_tokens:
  "parseEthiopianName fullName =
     (if cleanText fullName = [] then None
      else Some \<lparr> full = join [32] (tokensOf (cleanText fullName)),
                  first = at (tokensOf (cleanText fullName)) 0,
                  father = at (tokensOf (cleanText fullName)) 1,
                  grandfather = at (tokensOf (cleanText fullName)) 2,
                  rest = (if 3 < length (tokensOf (cleanText fullName))
                          then Some (join [32] (drop 3 (tokensOf (cleanText fullName))))
                          else None) \<rparr>)
   \<and> join [32] (tokensOf (cleanText fullName)) = cleanText fullName
   \<and> [] \<notin> set (tokensOf (cleanText fullName))"
proof -
  have n: "[] \<notin> set (tokensOf (cleanText fullName))"
    using tokensOf_nonempty [of "[]" fullName] by auto
  show ?thesis
    using n jsOr_at [OF n]
    by (simp add: parseEthiopianName_def Let_def tokensOf_cleanText [symmetric]
          join_tokensOf_cleanText)
qed

lemma cleanText_abebe3: "cleanText (Some (js ''Abebe Kebede Tesfaye'')) = js ''Abebe Kebede Tesfaye''"
  by (simp add: cleanText_eq stringOrEmpty_Some js_Cons js_Nil nbspToSpace_def isSpace_def
        stripTrailingColons_def isColon_def trim_def)

lemma cleanText_abebe1: "cleanText (Some (js ''Abebe'')) = js ''Abebe''"
  by (simp add: cleanText_eq stringOrEmpty_Some js_Cons js_Nil nbspToSpace_def isSpace_def
        stripTrailingColons_def isColon_def trim_def)

lemma cleanText_empty: "cleanText (Some []) = [] \<and> cleanText None = []"
  by (simp add: cleanText_eq stringOrEmpty_Some stringOrEmpty_None
        stripTrailingColons_def trim_def)


theorem parseEthiopianName_tokens_witness:
  "parseEthiopianName (Some (js ''Abebe Kebede Tesfaye''))
     = Some \<lparr> full = js ''Abebe Kebede Tesfaye'', first = Some (js ''Abebe''),
              father = Some (js ''Kebede''), grandfather = Some (js ''Tesfaye''), rest = None \<rparr>
   \<and> parseEthiopianName (Some (js ''Abebe''))
     = Some \<lparr> full = js ''Abebe'', first = Some (js ''Abebe''),
              father = None, grandfather = None, rest = None \<rparr>
   \<and> parseEthiopianName (Some []) = None
   \<and> parseEthiopianName None = None"
  using parseEthiopianName_tokens [of "Some (js ''Abebe Kebede Tesfaye'')"]
        parseEthiopianName_tokens [of "Some (js ''Abebe'')"]
        parseEthiopianName_tokens [of "Some []"]
        parseEthiopianName_tokens [of None]
  by (simp add: cleanText_abebe3 cleanText_abebe1 cleanText_empty)
     (simp add: js_Cons js_Nil isSpace_def at_def)


subsection \<open>C10: the invoice number is never absent\<close>

lemma assertAllowedHost_not_PARSE_FAIL: "assertAllowedHost p \<noteq> Inl (PARSE_FAIL d)"
  by (auto simp add: assertAllowedHost_def split: option.splits)

lemma requireCriticalFields_PARSE_FAIL:
  "requireCriticalFields c = Inl (PARSE_FAIL d) \<Longrightarrow> hasInvoiceNo d = truthy (invoiceNo c)"
  by (auto simp add: requireCriticalFields_def split: if_splits)

lemma processFetched_PARSE_FAIL:
  "processFetched pf tx page = Inl (PARSE_FAIL d) \<Longrightarrow>
     hasInvoiceNo d = truthy (invoiceNo (extractCanonical (toLowerCase pf) (cheerioLoad pf (html page)) tx))"
  by (auto simp add: processFetched_def Let_def split: if_splits sum.splits
        dest: requireCriticalFields_PARSE_FAIL)

lemma truthy_invoiceNo: "tx \<noteq> [] \<Longrightarrow> truthy (invoiceNo (extractCanonical lc doc tx))"
  by (simp add: invoiceNo_extractCanonical jsOr_def truthy_def)

lemma sample_processFetched_empty:
  "processFetched (samplePlatform docEmpty) (js ''ABCDE12345'') longPage
     = Inl (PARSE_FAIL \<lparr> hasInvoiceNo = True, hasSettledAmount = False,
                         hasCreditedPartyAccountNo = False \<rparr>)"
proof -
  have c: "cleanText (Some (bodyText docEmpty)) = []"
    by (simp add: docEmpty_def eval_text)
  have n: "\<not> regexTest True rxNotFound []"
    by (simp add: rxNotFound_def eval_regex js_Cons js_Nil)
  have i: "invoiceNo (extractCanonical (map asciiLower) docEmpty (js ''ABCDE12345''))
      = Some (js ''ABCDE12345'')"
    by (simp add: invoiceNo_extractCanonical resolvedBodyText_docEmpty rxInvoiceNo_def
          stringOrEmpty_Some eval_regex jsOr_def truthy_def)
  have s: "settledAmount (extractCanonical (map asciiLower) docEmpty (js ''ABCDE12345'')) = None"
    by (simp add: settledAmount_extractCanonical resolvedBodyText_docEmpty rxSettledAmount_def
          stringOrEmpty_Some eval_regex jsOr_def truthy_def)
  have a: "creditedPartyAccountNo (extractCanonical (map asciiLower) docEmpty (js ''ABCDE12345''))
      = None"
    by (simp add: creditedPartyAccountNo_extractCanonical extractReceiptRawPairs_def docEmpty_def
          cleanRawPairs_def creditedPartyAccountNoKeys_def truthy_def)
  show ?thesis
    by (simp add: processFetched_def Let_def longPage_def sample_load sample_lower c n
          requireCriticalFields_def i s a)
       (simp add: truthy_def js_Cons)
qed

text \<open>
  C10. For a non-empty transaction code the resolved \<open>invoiceNo\<close> is non-empty: it is
  the code itself when the invoice pattern does not match the body text. So whenever the
  pipeline raises \<open>PARSE_FAIL\<close> (the code then has passed the format check), the details
  report \<open>hasInvoiceNo = True\<close>.
\<close>

theorem invoiceNo_never_absent:
  "(tx \<noteq> [] \<longrightarrow> truthy (invoiceNo (extractCanonical lc doc tx)))
   \<and> (matchGroup1 True rxInvoiceNo (resolvedBodyText doc) = None \<longrightarrow>
        invoiceNo (extractCanonical lc doc tx) = Some tx)
   \<and> (tx \<noteq> [] \<and> processFetched pf tx page = Inl (PARSE_FAIL d) \<longrightarrow> hasInvoiceNo d)
   \<and> (getReceiptCanonical pf tx = Inl (PARSE_FAIL d) \<longrightarrow> hasInvoiceNo d)"
proof (intro conjI impI)
  assume "tx \<noteq> []"
  then show "truthy (invoiceNo (extractCanonical lc doc tx))" by (rule truthy_invoiceNo)
next
  assume "matchGroup1 True rxInvoiceNo (resolvedBodyText doc) = None"
  then show "invoiceNo (extractCanonical lc doc tx) = Some tx"
    by (simp add: invoiceNo_extractCanonical extractByRegex_def stringOrEmpty_Some jsOr_def
          truthy_def)
next
  assume "tx \<noteq> [] \<and> processFetched pf tx page = Inl (PARSE_FAIL d)"
  with processFetched_PARSE_FAIL [of pf tx page d] truthy_invoiceNo [of tx]
  show "hasInvoiceNo d" by simp
next
  assume g: "getReceiptCanonical pf tx = Inl (PARSE_FAIL d)"
  then have v: "regexTest False rxTransactionCode tx"
    by (auto simp add: getReceiptCanonical_def split: if_splits)
  then have n: "tx \<noteq> []" by (auto simp add: regexTest_transaction_code)
  from g v obtain page where "processFetched pf tx page = Inl (PARSE_FAIL d)"
    by (auto simp add: getReceiptCanonical_def Let_def assertAllowedHost_not_PARSE_FAIL
          split: sum.splits)
  with processFetched_PARSE_FAIL [of pf tx page d] truthy_invoiceNo [OF n]
  show "hasInvoiceNo d" by simp
qed

theorem invoiceNo_never_absent_witness:
  "js ''ABCDE12345'' \<noteq> []
   \<and> truthy (invoiceNo (extractCanonical (map asciiLower) docEmpty (js ''ABCDE12345'')))
   \<and> invoiceNo (extractCanonical (map asciiLower) docEmpty (js ''ABCDE12345''))
       = Some (js ''ABCDE12345'')
   \<and> processFetched (samplePlatform docEmpty) (js ''ABCDE12345'') longPage
       = Inl (PARSE_FAIL \<lparr> hasInvoiceNo = True, hasSettledAmount = False,
                           hasCreditedPartyAccountNo = False \<rparr>)
   \<and> getReceiptCanonical (samplePlatform docEmpty) (js ''ABCDE12345'')
       = Inl (PARSE_FAIL \<lparr> hasInvoiceNo = True, hasSettledAmount = False,
                           hasCreditedPartyAccountNo = False \<rparr>)"
proof -
  have n: "js ''ABCDE12345'' \<noteq> []" by (simp add: js_Cons)
  have m: "matchGroup1 True rxInvoiceNo (resolvedBodyText docEmpty) = None"
    by (simp add: resolvedBodyText_docEmpty rxInvoiceNo_def eval_regex)
  have g: "getReceiptCanonical (samplePlatform docEmpty) (js ''ABCDE12345'')
       = Inl (PARSE_FAIL \<lparr> hasInvoiceNo = True, hasSettledAmount = False,
                           hasCreditedPartyAccountNo = False \<rparr>)"
    by (simp add: getReceiptCanonical_def sample_code sample_receiptUrl sample_gate sample_fetch
          sample_processFetched_empty)
  from invoiceNo_never_absent [of "js ''ABCDE12345''" "map asciiLower" docEmpty
          "samplePlatform docEmpty" longPage
          "\<lparr> hasInvoiceNo = True, hasSettledAmount = False, hasCreditedPartyAccountNo = False \<rparr>"]
    n m g sample_processFetched_empty
  show ?thesis by (simp add: truthy_def)
qed


end
